theory Spec2Isabelle
  imports
    Complex_Main
    "HOL-Library.AList"
    "HOL-Library.Multiset"
    "HOL-Library.Product_Lexorder"
    "HOL-Library.List_Lexorder"
    "HOL-Library.Char_ord"
begin

section \<open>Data model\<close>

text \<open>
  The embedding follows \<^verbatim>\<open>orders.py\<close>, \<^verbatim>\<open>grouping_aggregation_helpers.py\<close> and
  \<^verbatim>\<open>queries.py\<close>.

  \<^item> Python \<^verbatim>\<open>float\<close> values are modelled as \<^typ>\<open>real\<close>: every statement below is about
    exact arithmetic. Rounding, overflow to infinity and NaN are outside the model.
  \<^item> Python \<^verbatim>\<open>int\<close> is \<^typ>\<open>int\<close>, \<^verbatim>\<open>str\<close> is \<^typ>\<open>string\<close>.
  \<^item> A \<^verbatim>\<open>datetime\<close> is modelled as the number of microseconds since a fixed epoch
    (naive date-times); the difference of two of them is a \<^verbatim>\<open>timedelta\<close> in microseconds.
  \<^item> A \<^verbatim>\<open>dict\<close> is an association list with distinct keys in insertion order:
    \<^verbatim>\<open>d[k] = v\<close> is \<^const>\<open>AList.update\<close>, which overwrites in place or appends at the end,
    as Python dictionaries do.
  \<^item> Exceptions are values: every operation of the source that can raise returns
    \<open>py_error + 'a\<close>, with \<open>Inl\<close> the exception.
  \<^item> \<^verbatim>\<open>stream_orders(path)\<close> is the external record source; the queries take the finite
    sequence of records it yields (the same on each traversal) as a list.
\<close>

datatype py_error = ZeroDivisionError | ValueError | IndexError

type_synonym 'a result = "py_error + 'a"

type_synonym datetime = int

type_synonym ('k, 'v) dict = "('k \<times> 'v) list"

record Order =
  category :: string
  sub_category :: string
  state :: string
  country :: string
  customer_id :: string
  customer_name :: string
  year :: int
  market :: string
  sales :: real
  profit :: real
  discount :: real
  quantity :: int
  shipping_cost :: real
  product_id :: "string option"
  product_name :: "string option"
  order_date :: "datetime option"
  ship_date :: "datetime option"

subsection \<open>Python primitives\<close>

text \<open>Sequencing of computations that may raise.\<close>

definition bind_res :: "'a result \<Rightarrow> ('a \<Rightarrow> 'b result) \<Rightarrow> 'b result" where
  "bind_res r f = (case r of Inl e \<Rightarrow> Inl e | Inr x \<Rightarrow> f x)"

text \<open>A loop whose body may raise: the first exception ends it.\<close>

fun fold_res :: "('a \<Rightarrow> 's \<Rightarrow> 's result) \<Rightarrow> 'a list \<Rightarrow> 's \<Rightarrow> 's result" where
  "fold_res f [] s = Inr s"
| "fold_res f (x # xs) s = bind_res (f x s) (fold_res f xs)"

text \<open>A comprehension whose element expression may raise.\<close>

fun map_res :: "('a \<Rightarrow> 'b result) \<Rightarrow> 'a list \<Rightarrow> 'b list result" where
  "map_res f [] = Inr []"
| "map_res f (x # xs) = bind_res (f x) (\<lambda>y. bind_res (map_res f xs) (\<lambda>ys. Inr (y # ys)))"

text \<open>\<^verbatim>\<open>a / b\<close> on floats: raises \<^verbatim>\<open>ZeroDivisionError\<close> when \<^verbatim>\<open>b == 0\<close>.\<close>

definition truediv :: "real \<Rightarrow> real \<Rightarrow> real result" where
  "truediv a b = (if b = 0 then Inl ZeroDivisionError else Inr (a / b))"

text \<open>\<^verbatim>\<open>math.sqrt\<close>: raises \<^verbatim>\<open>ValueError\<close> on a negative argument.\<close>

definition math_sqrt :: "real \<Rightarrow> real result" where
  "math_sqrt x = (if x < 0 then Inl ValueError else Inr (sqrt x))"

text \<open>\<^verbatim>\<open>d.get(k, default)\<close>, also the read of a \<^verbatim>\<open>defaultdict\<close> whose factory gives the default.\<close>

definition dict_get :: "('k, 'v) dict \<Rightarrow> 'k \<Rightarrow> 'v \<Rightarrow> 'v" where
  "dict_get d k dflt = (case map_of d k of None \<Rightarrow> dflt | Some v \<Rightarrow> v)"

section \<open>Aggregation primitives\<close>

text \<open>
  \<^verbatim>\<open>aggregate_sum_by_key\<close>: \<^verbatim>\<open>totals[key] += value\<close> on a \<^verbatim>\<open>defaultdict(float)\<close>,
  for each \<^verbatim>\<open>(key, value)\<close> pair of the mapped stream.
\<close>

definition sum_step :: "'k \<times> real \<Rightarrow> ('k, real) dict \<Rightarrow> ('k, real) dict" where
  "sum_step kv totals =
     (case kv of (key, val) \<Rightarrow> AList.update key (dict_get totals key 0 + val) totals)"

definition aggregate_sum_by_key ::
  "'a list \<Rightarrow> ('a \<Rightarrow> 'k) \<Rightarrow> ('a \<Rightarrow> real) \<Rightarrow> ('k, real) dict" where
  "aggregate_sum_by_key orders key_fn value_fn =
     fold sum_step (map (\<lambda>ord. (key_fn ord, value_fn ord)) orders) []"

text \<open>
  \<^verbatim>\<open>aggregate_mean_by_key\<close>: two \<^verbatim>\<open>defaultdict\<close>s, then the comprehension
  \<^verbatim>\<open>{key: total[key] / count[key] for key in total if count[key] > 0}\<close>.
\<close>

definition mean_step ::
  "'k \<times> real \<Rightarrow> ('k, real) dict \<times> ('k, int) dict \<Rightarrow> ('k, real) dict \<times> ('k, int) dict" where
  "mean_step kv tc =
     (case kv of (key, val) \<Rightarrow> case tc of (totald, countd) \<Rightarrow>
        (AList.update key (dict_get totald key 0 + val) totald,
         AList.update key (dict_get countd key 0 + 1) countd))"

definition aggregate_mean_by_key ::
  "'a list \<Rightarrow> ('a \<Rightarrow> 'k) \<Rightarrow> ('a \<Rightarrow> real) \<Rightarrow> ('k, real) dict result" where
  "aggregate_mean_by_key orders key_fn value_fn =
     (case fold mean_step (map (\<lambda>ord. (key_fn ord, value_fn ord)) orders) ([], []) of
        (totald, countd) \<Rightarrow>
          map_res (\<lambda>key. bind_res (truediv (dict_get totald key 0) (of_int (dict_get countd key 0)))
                           (\<lambda>m. Inr (key, m)))
            (filter (\<lambda>key. dict_get countd key 0 > 0) (map fst totald)))"

text \<open>
  \<^verbatim>\<open>aggregate_stddev_by_key\<close>. The body of the first loop, for one value and the state
  \<^verbatim>\<open>(count, mean, m2)\<close> read with \<^verbatim>\<open>stats.get(key, (0, 0.0, 0.0))\<close>:
  \<^verbatim>\<open>count += 1; delta = value - mean; mean += delta / count; delta2 = value - mean;
  m2 += delta * delta2\<close>.
\<close>

definition welford_update :: "real \<Rightarrow> int \<times> real \<times> real \<Rightarrow> (int \<times> real \<times> real) result" where
  "welford_update val st =
     (case st of (cnt, mean, m2) \<Rightarrow>
        let cnt = cnt + 1;
            delta = val - mean
        in bind_res (truediv delta (of_int cnt)) (\<lambda>q.
             let mean = mean + q;
                 delta2 = val - mean;
                 m2 = m2 + delta * delta2
             in Inr (cnt, mean, m2)))"

definition stddev_step ::
  "'k \<times> real \<Rightarrow> ('k, int \<times> real \<times> real) dict \<Rightarrow> ('k, int \<times> real \<times> real) dict result" where
  "stddev_step kv stats =
     (case kv of (key, val) \<Rightarrow>
        bind_res (welford_update val (dict_get stats key (0, 0, 0)))
          (\<lambda>st. Inr (AList.update key st stats)))"

text \<open>The dictionary \<^verbatim>\<open>stats\<close> after the first loop.\<close>

definition stddev_stats ::
  "'a list \<Rightarrow> ('a \<Rightarrow> 'k) \<Rightarrow> ('a \<Rightarrow> real) \<Rightarrow> ('k, int \<times> real \<times> real) dict result" where
  "stddev_stats orders key_fn value_fn =
     fold_res stddev_step (map (\<lambda>ord. (key_fn ord, value_fn ord)) orders) []"

text \<open>\<^verbatim>\<open>denom = (count - 1) if sample and count > 1 else count\<close>.\<close>

definition stddev_denom :: "bool \<Rightarrow> int \<Rightarrow> int" where
  "stddev_denom sample cnt = (if sample \<and> cnt > 1 then cnt - 1 else cnt)"

text \<open>The body of the second loop; \<^verbatim>\<open>continue\<close> leaves \<^verbatim>\<open>result\<close> unchanged.\<close>

definition stddev_finalize_step ::
  "bool \<Rightarrow> 'k \<times> int \<times> real \<times> real \<Rightarrow> ('k, real) dict \<Rightarrow> ('k, real) dict result" where
  "stddev_finalize_step sample item res =
     (case item of (key, cnt, mean, m2) \<Rightarrow>
        if cnt = 0 then Inr res
        else let denom = stddev_denom sample cnt
             in if denom = 0 then Inr res
                else bind_res (truediv m2 (of_int denom)) (\<lambda>v.
                       bind_res (math_sqrt v) (\<lambda>sd. Inr (AList.update key sd res))))"

definition aggregate_stddev_by_key ::
  "'a list \<Rightarrow> ('a \<Rightarrow> 'k) \<Rightarrow> ('a \<Rightarrow> real) \<Rightarrow> bool \<Rightarrow> ('k, real) dict result" where
  "aggregate_stddev_by_key orders key_fn value_fn sample =
     bind_res (stddev_stats orders key_fn value_fn)
       (\<lambda>stats. fold_res (stddev_finalize_step sample) stats [])"

section \<open>The binary heap of \<^verbatim>\<open>heapq\<close>\<close>

text \<open>
  \<^verbatim>\<open>heapq\<close> keeps a min-heap in a Python list: the children of position \<open>i\<close> are at
  \<open>2 * i + 1\<close> and \<open>2 * i + 2\<close>. The functions below are \<^verbatim>\<open>_siftdown\<close>, \<^verbatim>\<open>_siftup\<close>,
  \<^verbatim>\<open>heappush\<close> and \<^verbatim>\<open>heappop\<close> of the standard library, which compare items with \<open><\<close>
  only. The sift functions are called with positions inside the list.
\<close>

function siftdown_loop :: "'a::linorder list \<Rightarrow> nat \<Rightarrow> 'a \<Rightarrow> nat \<Rightarrow> 'a list" where
  "siftdown_loop heap startpos newitem pos =
     (if pos > startpos then
        (let parentpos = (pos - 1) div 2;
             parent = heap ! parentpos
         in if newitem < parent
            then siftdown_loop (heap[pos := parent]) startpos newitem parentpos
            else heap[pos := newitem])
      else heap[pos := newitem])"
  by pat_completeness auto
termination
  by (relation "measure (\<lambda>(heap, startpos, newitem, pos). pos)") auto

declare siftdown_loop.simps [simp del]

definition siftdown :: "'a::linorder list \<Rightarrow> nat \<Rightarrow> nat \<Rightarrow> 'a list" where
  "siftdown heap startpos pos = siftdown_loop heap startpos (heap ! pos) pos"

text \<open>
  The loop of \<^verbatim>\<open>_siftup\<close>: the smaller child moves up into the hole at \<open>pos\<close> until the
  hole is a leaf. It returns the list and the final \<open>pos\<close>.
\<close>

function siftup_loop :: "'a::linorder list \<Rightarrow> nat \<Rightarrow> nat \<Rightarrow> nat \<Rightarrow> 'a list \<times> nat" where
  "siftup_loop heap endpos pos childpos =
     (if childpos < endpos then
        (let rightpos = childpos + 1;
             childpos = (if rightpos < endpos \<and> \<not> heap ! childpos < heap ! rightpos
                         then rightpos else childpos);
             heap = heap[pos := heap ! childpos];
             pos = childpos
         in siftup_loop heap endpos pos (2 * pos + 1))
      else (heap, pos))"
  by pat_completeness auto
termination
  by (relation "measure (\<lambda>(heap, endpos, pos, childpos). endpos - childpos)") auto

declare siftup_loop.simps [simp del]

definition siftup :: "'a::linorder list \<Rightarrow> nat \<Rightarrow> 'a list" where
  "siftup heap pos =
     (let endpos = length heap;
          startpos = pos;
          newitem = heap ! pos
      in case siftup_loop heap endpos pos (2 * pos + 1) of
           (heap, pos) \<Rightarrow> siftdown (heap[pos := newitem]) startpos pos)"

definition heappush :: "'a::linorder list \<Rightarrow> 'a \<Rightarrow> 'a list" where
  "heappush heap item = siftdown (heap @ [item]) 0 (length (heap @ [item]) - 1)"

text \<open>
  \<^verbatim>\<open>heappop\<close> returns the popped item and the list as it is left; \<^verbatim>\<open>heap.pop()\<close> raises
  \<^verbatim>\<open>IndexError\<close> on an empty list.
\<close>

definition heappop :: "'a::linorder list \<Rightarrow> ('a \<times> 'a list) result" where
  "heappop heap =
     (if heap = [] then Inl IndexError
      else let lastelt = last heap;
               heap = butlast heap
           in if heap \<noteq> []
              then let returnitem = heap ! 0
                   in Inr (returnitem, siftup (heap[0 := lastelt]) 0)
              else Inr (lastelt, heap))"

section \<open>Composite queries\<close>



type_synonym trend = "int \<times> real \<times> real option \<times> real option"




text \<open>\<^verbatim>\<open>profit_margin_by_category_subcategory\<close>; \<^verbatim>\<open>if sales\<close> is \<^verbatim>\<open>sales != 0\<close> on a float.\<close>

definition margin_step ::
  "(string \<times> string, real) dict \<Rightarrow> (string \<times> string) \<times> real
     \<Rightarrow> (string \<times> string, real option) dict \<Rightarrow> (string \<times> string, real option) dict result" where
  "margin_step total_profit item margins =
     (case item of (key, s) \<Rightarrow>
        let p = dict_get total_profit key 0
        in bind_res (if s \<noteq> 0 then bind_res (truediv p s) (\<lambda>m. Inr (Some m)) else Inr None)
             (\<lambda>m. Inr (AList.update key m margins)))"

definition profit_margin_by_category_subcategory ::
  "Order list \<Rightarrow> (string \<times> string, real option) dict result" where
  "profit_margin_by_category_subcategory orders =
     (let total_sales = aggregate_sum_by_key orders (\<lambda>ord. (category ord, sub_category ord)) sales;
          total_profit = aggregate_sum_by_key orders (\<lambda>ord. (category ord, sub_category ord)) profit
      in fold_res (margin_step total_profit) total_sales [])"

text \<open>
  \<^verbatim>\<open>top_categories_by_margin\<close>. The heap holds \<^verbatim>\<open>(margin, category, sub_category)\<close> tuples,
  which Python compares lexicographically, as the order on products and strings here does.
\<close>

definition top_step ::
  "(string \<times> string, real) dict \<Rightarrow> int \<Rightarrow> (string \<times> string) \<times> real
     \<Rightarrow> (real \<times> string \<times> string) list \<Rightarrow> (real \<times> string \<times> string) list result" where
  "top_step total_profit n item heap =
     (case item of ((cat, sub), s) \<Rightarrow>
        if \<not> s \<noteq> 0 then Inr heap
        else bind_res (truediv (dict_get total_profit (cat, sub) 0) s) (\<lambda>margin.
               let heap = heappush heap (margin, cat, sub)
               in if int (length heap) > n
                  then bind_res (heappop heap) (\<lambda>(popped, heap). Inr heap)
                  else Inr heap))"

text \<open>
  \<^verbatim>\<open>sorted(heap, key=lambda x: x[0], reverse=True)\<close>: a stable sort in descending order of
  the key, that is, items with equal keys keep the order they have in \<^verbatim>\<open>heap\<close>. It is the
  reverse of the stable ascending sort of the reversed list.
\<close>

definition sorted_reverse :: "('a \<Rightarrow> 'b::linorder) \<Rightarrow> 'a list \<Rightarrow> 'a list" where
  "sorted_reverse f xs = rev (sort_key f (rev xs))"

definition top_heap ::
  "Order list \<Rightarrow> int \<Rightarrow> (real \<times> string \<times> string) list result" where
  "top_heap orders n =
     (let total_sales = aggregate_sum_by_key orders (\<lambda>ord. (category ord, sub_category ord)) sales;
          total_profit = aggregate_sum_by_key orders (\<lambda>ord. (category ord, sub_category ord)) profit
      in fold_res (top_step total_profit n) total_sales [])"

definition top_categories_by_margin ::
  "Order list \<Rightarrow> int \<Rightarrow> (string \<times> string \<times> real) list result" where
  "top_categories_by_margin orders n =
     bind_res (top_heap orders n) (\<lambda>heap.
       let top = sorted_reverse fst heap
       in Inr (map (\<lambda>(margin, cat, sub). (cat, sub, margin)) top))"

definition total_discounted_profit :: "Order list \<Rightarrow> real" where
  "total_discounted_profit orders =
     (let totals = aggregate_sum_by_key (filter (\<lambda>ord. discount ord > 0) orders)
                     (\<lambda>_. ''all'') profit
      in dict_get totals ''all'' 0)"

definition discounted_profit_share :: "Order list \<Rightarrow> real option result" where
  "discounted_profit_share orders =
     (let discounted = total_discounted_profit orders;
          total_all = dict_get (aggregate_sum_by_key orders (\<lambda>_. ''all'') profit) ''all'' 0
      in if total_all \<noteq> 0 then bind_res (truediv discounted total_all) (\<lambda>sh. Inr (Some sh))
         else Inr None)"





section \<open>Specification-level notions and example data\<close>

text \<open>The values of the pairs with key \<open>k\<close>, in stream order.\<close>

definition values_of :: "'k \<Rightarrow> ('k \<times> 'v) list \<Rightarrow> 'v list" where
  "values_of k kvs = map snd (filter (\<lambda>kv. fst kv = k) kvs)"

text \<open>An order line as the unit tests build it: the optional fields are absent.\<close>

definition example_order ::
  "string \<Rightarrow> string \<Rightarrow> int \<Rightarrow> string \<Rightarrow> real \<Rightarrow> real \<Rightarrow> real \<Rightarrow> Order" where
  "example_order cat sub yr mkt s p d =
     \<lparr>category = cat, sub_category = sub, state = ''CA'', country = ''USA'',
      customer_id = ''C1'', customer_name = ''Alice'', year = yr, market = mkt,
      sales = s, profit = p, discount = d, quantity = 1, shipping_cost = 5,
      product_id = None, product_name = None, order_date = None, ship_date = None\<rparr>"

text \<open>The three orders of \<^verbatim>\<open>HelperAggregationTests.setUp\<close>, in the fields the queries read.\<close>

definition test_orders :: "Order list" where
  "test_orders =
     [example_order ''Furniture'' ''Chairs'' 2020 ''US'' 100 10 0,
      example_order ''Furniture'' ''Tables'' 2020 ''US'' 200 20 (1 / 10),
      example_order ''Office Supplies'' ''Paper'' 2021 ''US'' 50 5 0]"


text \<open>
  The orders of \<^verbatim>\<open>test_profit_margin_and_top_categories\<close>, except that the last one has
  zero sales.
\<close>

definition margin_orders :: "Order list" where
  "margin_orders =
     [example_order ''Furniture'' ''Chairs'' 2020 ''US'' 100 10 0,
      example_order ''Furniture'' ''Tables'' 2020 ''US'' 200 60 0,
      example_order ''Office Supplies'' ''Paper'' 2020 ''US'' 0 5 0]"

text \<open>
  Welford's update as the specification words it: \<open>count += 1; delta = v - mean;
  mean += delta / count; delta2 = v - mean; M2 += delta * delta2\<close>.
\<close>

definition welford_next :: "int \<times> real \<times> real \<Rightarrow> real \<Rightarrow> int \<times> real \<times> real" where
  "welford_next st v =
     (case st of (cnt, mean, m2) \<Rightarrow>
        (cnt + 1,
         mean + (v - mean) / of_int (cnt + 1),
         m2 + (v - mean) * (v - (mean + (v - mean) / of_int (cnt + 1)))))"

text \<open>The state \<open>(count, mean, M2)\<close> after the values \<open>vs\<close> of one key, from \<open>(0, 0, 0)\<close>.\<close>

definition welford_state :: "real list \<Rightarrow> int \<times> real \<times> real" where
  "welford_state vs = foldl welford_next (0, 0, 0) vs"

text \<open>The finalized value of a state: the square root of \<open>M2 / denom\<close>.\<close>

definition welford_finalize :: "bool \<Rightarrow> int \<times> real \<times> real \<Rightarrow> real" where
  "welford_finalize sample st =
     (case st of (cnt, mean, m2) \<Rightarrow> sqrt (m2 / of_int (stddev_denom sample cnt)))"

text \<open>One step of the first loop without the error branch.\<close>

definition welford_step ::
  "'k \<times> real \<Rightarrow> ('k, int \<times> real \<times> real) dict \<Rightarrow> ('k, int \<times> real \<times> real) dict" where
  "welford_step kv stats =
     AList.update (fst kv) (welford_next (dict_get stats (fst kv) (0, 0, 0)) (snd kv)) stats"

text \<open>The year-over-year change against the previous sales, none without a usable previous value.\<close>

definition yoy_change_of :: "real option \<Rightarrow> real \<Rightarrow> real option" where
  "yoy_change_of prev s =
     (case prev of None \<Rightarrow> None | Some p \<Rightarrow> if p \<noteq> 0 then Some ((s - p) / p) else None)"

text \<open>The trend entries of a list of \<open>(year, sales)\<close> pairs walked in order.\<close>

fun yoy_walk :: "real option \<Rightarrow> (int \<times> real) list \<Rightarrow> trend list" where
  "yoy_walk prev [] = []"
| "yoy_walk prev ((yr, s) # es) = (yr, s, prev, yoy_change_of prev s) # yoy_walk (Some s) es"







text \<open>The position of the parent of position \<open>i\<close> in the list.\<close>

definition parent_pos :: "nat \<Rightarrow> nat" where
  "parent_pos i = (i - 1) div 2"

text \<open>The heap invariant of \<^verbatim>\<open>heapq\<close>: every item is at least its parent.\<close>

definition is_heap :: "'a::linorder list \<Rightarrow> bool" where
  "is_heap h \<longleftrightarrow> (\<forall>i \<in> {1..<length h}. h ! parent_pos i \<le> h ! i)"

text \<open>
  The invariant around a hole at \<open>pos\<close>, whose content does not count: items that are
  neither the hole nor its children are at least their parents, and the children of the
  hole are at least the parent of the hole.
\<close>

definition heap_hole :: "'a::linorder list \<Rightarrow> nat \<Rightarrow> bool" where
  "heap_hole h pos \<longleftrightarrow>
     pos < length h \<and>
     (\<forall>i \<in> {1..<length h}. i \<noteq> pos \<longrightarrow>
        (if parent_pos i = pos then 0 < pos \<longrightarrow> h ! parent_pos pos \<le> h ! i
         else h ! parent_pos i \<le> h ! i))"

text \<open>The item \<open>x\<close> is at most the children of position \<open>pos\<close>.\<close>

definition below_children :: "'a::linorder list \<Rightarrow> nat \<Rightarrow> 'a \<Rightarrow> bool" where
  "below_children h pos x \<longleftrightarrow> (\<forall>i \<in> {1..<length h}. parent_pos i = pos \<longrightarrow> x \<le> h ! i)"

text \<open>
  The body of the loop of \<^verbatim>\<open>top_categories_by_margin\<close> for one candidate tuple: push it,
  and pop the smallest item when the heap has grown beyond \<open>n\<close>.
\<close>

definition push_bounded :: "int \<Rightarrow> 'a::linorder \<Rightarrow> 'a list \<Rightarrow> 'a list result" where
  "push_bounded n x heap =
     (let heap = heappush heap x
      in if int (length heap) > n
         then bind_res (heappop heap) (\<lambda>(popped, heap). Inr heap)
         else Inr heap)"



text \<open>
  The candidate tuples \<open>(margin, category, sub_category)\<close> in the order in which the loop
  pushes them: one for each group with nonzero total sales, in the order of the sales totals.
\<close>

definition margin_candidates :: "Order list \<Rightarrow> (real \<times> string \<times> string) list" where
  "margin_candidates orders =
     map (\<lambda>item. (dict_get (aggregate_sum_by_key orders (\<lambda>ord. (category ord, sub_category ord)) profit)
                     (fst item) 0 / snd item, fst (fst item), snd (fst item)))
       (filter (\<lambda>item. snd item \<noteq> 0)
          (aggregate_sum_by_key orders (\<lambda>ord. (category ord, sub_category ord)) sales))"

text \<open>
  The invariant of the loop: the list is a heap of at most \<open>nat n\<close> items, every dropped
  item is at most every retained one, and nothing is dropped before the heap is full.
\<close>

definition top_inv :: "int \<Rightarrow> 'a::linorder list \<Rightarrow> 'a multiset \<Rightarrow> bool" where
  "top_inv n heap dropped \<longleftrightarrow>
     is_heap heap \<and> length heap \<le> nat n \<and>
     (\<forall>d \<in># dropped. \<forall>r \<in> set heap. d \<le> r) \<and>
     (dropped \<noteq> {#} \<longrightarrow> length heap = nat n)"

text \<open>
  Three groups with the same margin 1, given in two different orders of first occurrence.
\<close>

definition tie_orders_abc :: "Order list" where
  "tie_orders_abc =
     [example_order ''F'' ''a'' 2020 ''US'' 1 1 0,
      example_order ''F'' ''b'' 2020 ''US'' 1 1 0,
      example_order ''F'' ''c'' 2020 ''US'' 1 1 0]"

definition tie_orders_acb :: "Order list" where
  "tie_orders_acb =
     [example_order ''F'' ''a'' 2020 ''US'' 1 1 0,
      example_order ''F'' ''c'' 2020 ''US'' 1 1 0,
      example_order ''F'' ''b'' 2020 ''US'' 1 1 0]"

section \<open>Properties\<close>

subsection \<open>Results and dictionaries\<close>

lemma bind_res_Inr [simp]: "bind_res (Inr x) f = f x"
  by (simp add: bind_res_def)

lemma bind_res_Inl [simp]: "bind_res (Inl e) f = Inl e"
  by (simp add: bind_res_def)

lemma truediv_nonzero: "b \<noteq> 0 \<Longrightarrow> truediv a b = Inr (a / b)"
  by (simp add: truediv_def)

lemma map_res_Inr: "(\<And>x. x \<in> set xs \<Longrightarrow> f x = Inr (g x)) \<Longrightarrow> map_res f xs = Inr (map g xs)"
  by (induction xs) simp_all

lemma dict_get_update:
  "dict_get (AList.update k v d) k' dflt = (if k' = k then v else dict_get d k' dflt)"
  by (simp add: dict_get_def update_conv')

lemma dict_get_map_of: "map_of d k = Some v \<Longrightarrow> dict_get d k dflt = v"
  by (simp add: dict_get_def)

lemma dict_get_absent: "k \<notin> fst ` set d \<Longrightarrow> dict_get d k dflt = dflt"
  by (cases "map_of d k") (force simp: dict_get_def dest: map_of_SomeD)+

lemma dict_get_Nil [simp]: "dict_get [] k dflt = dflt"
  by (simp add: dict_get_def)

lemma map_of_dict_get: "k \<in> fst ` set d \<Longrightarrow> map_of d k = Some (dict_get d k dflt)"
  by (cases "map_of d k") (auto simp: dict_get_def map_of_eq_None_iff)

lemma keys_update: "fst ` set (AList.update k v d) = insert k (fst ` set d)"
  using dom_update [of k v d] by (simp add: dom_map_of_conv_image_fst)

lemma update_fresh: "k \<notin> fst ` set al \<Longrightarrow> AList.update k v al = al @ [(k, v)]"
  by (induction al) auto

lemma fold_res_update_all:
  assumes "\<And>k x acc. (k, x) \<in> set items \<Longrightarrow> f (k, x) acc = Inr (AList.update k (g k x) acc)"
    and "distinct (map fst items)"
    and "fst ` set items \<inter> fst ` set acc = {}"
  shows "fold_res f items acc = Inr (acc @ map (\<lambda>(k, x). (k, g k x)) items)"
  using assms
proof (induction items arbitrary: acc)
  case Nil
  show ?case by simp
next
  case (Cons item items)
  obtain k x where item: "item = (k, x)" by (cases item)
  have step: "f (k, x) acc = Inr (acc @ [(k, g k x)])"
    using Cons.prems(1) [of k x acc] Cons.prems(3) by (simp add: item update_fresh)
  have "fold_res f items (acc @ [(k, g k x)]) =
        Inr ((acc @ [(k, g k x)]) @ map (\<lambda>(k, x). (k, g k x)) items)"
  proof (rule Cons.IH)
    show "f (k', x') acc' = Inr (AList.update k' (g k' x') acc')" if "(k', x') \<in> set items" for k' x' acc'
      using that Cons.prems(1) by simp
    show "distinct (map fst items)" using Cons.prems(2) by simp
    show "fst ` set items \<inter> fst ` set (acc @ [(k, g k x)]) = {}"
      using Cons.prems(2,3) by (auto simp: item)
  qed
  then show ?case by (simp add: step item)
qed

lemma values_of_Nil [simp]: "values_of k [] = []"
  by (simp add: values_of_def)

lemma values_of_Cons [simp]:
  "values_of k ((k', v) # kvs) = (if k' = k then v # values_of k kvs else values_of k kvs)"
  by (simp add: values_of_def)

lemma values_of_map:
  "values_of k (map (\<lambda>ord. (key_fn ord, value_fn ord)) orders) =
     map value_fn (filter (\<lambda>ord. key_fn ord = k) orders)"
  by (induction orders) simp_all

lemma sum_fold_get:
  "dict_get (fold sum_step kvs d) k 0 = dict_get d k 0 + sum_list (values_of k kvs)"
  by (induction kvs arbitrary: d) (auto simp: sum_step_def dict_get_update)

lemma sum_fold_keys: "fst ` set (fold sum_step kvs d) = fst ` set d \<union> fst ` set kvs"
proof (induction kvs arbitrary: d)
  case Nil
  show ?case by simp
next
  case (Cons kv kvs)
  obtain k v where kv: "kv = (k, v)" by (cases kv)
  show ?case
    by (simp add: Cons.IH) (simp add: kv sum_step_def keys_update)
qed

lemma sum_fold_distinct: "distinct (map fst d) \<Longrightarrow> distinct (map fst (fold sum_step kvs d))"
  by (induction kvs arbitrary: d) (auto simp: sum_step_def distinct_update)

lemma aggregate_sum_keys:
  "fst ` set (aggregate_sum_by_key orders key_fn value_fn) = key_fn ` set orders"
  by (simp add: aggregate_sum_by_key_def sum_fold_keys image_image)

lemma aggregate_sum_distinct: "distinct (map fst (aggregate_sum_by_key orders key_fn value_fn))"
  by (simp add: aggregate_sum_by_key_def sum_fold_distinct)

lemma aggregate_sum_get:
  "dict_get (aggregate_sum_by_key orders key_fn value_fn) k 0 =
     sum_list (map value_fn (filter (\<lambda>ord. key_fn ord = k) orders))"
  by (simp add: aggregate_sum_by_key_def sum_fold_get values_of_map)

lemma aggregate_sum_map_of:
  "map_of (aggregate_sum_by_key orders key_fn value_fn) k =
     (if k \<in> key_fn ` set orders
      then Some (sum_list (map value_fn (filter (\<lambda>ord. key_fn ord = k) orders)))
      else None)"
proof (cases "k \<in> key_fn ` set orders")
  case True
  then have "k \<in> fst ` set (aggregate_sum_by_key orders key_fn value_fn)"
    by (simp add: aggregate_sum_keys)
  from map_of_dict_get [OF this, of 0] True show ?thesis
    by (simp add: aggregate_sum_get)
next
  case False
  then have "k \<notin> fst ` set (aggregate_sum_by_key orders key_fn value_fn)"
    by (simp add: aggregate_sum_keys)
  with False show ?thesis
    by (simp add: map_of_eq_None_iff)
qed

lemma mean_fold_fst: "fst (fold mean_step kvs tc) = fold sum_step kvs (fst tc)"
  by (induction kvs arbitrary: tc) (auto simp: mean_step_def sum_step_def split: prod.splits)

lemma mean_fold_count:
  "dict_get (snd (fold mean_step kvs tc)) k 0 =
     dict_get (snd tc) k 0 + int (length (values_of k kvs))"
  by (induction kvs arbitrary: tc) (auto simp: mean_step_def dict_get_update split: prod.splits)

lemma map_of_tabulate:
  "map_of (map (\<lambda>k. (k, f k)) ks) k = (if k \<in> set ks then Some (f k) else None)"
  by (induction ks) auto

lemma aggregate_mean_map_of:
  "\<exists>means. aggregate_mean_by_key orders key_fn value_fn = Inr means \<and>
     (\<forall>k. map_of means k =
        (if k \<in> key_fn ` set orders
         then Some (sum_list (map value_fn (filter (\<lambda>ord. key_fn ord = k) orders)) /
                    real (length (filter (\<lambda>ord. key_fn ord = k) orders)))
         else None))"
proof -
  define kvs where "kvs = map (\<lambda>ord. (key_fn ord, value_fn ord)) orders"
  define totald where "totald = fst (fold mean_step kvs ([], []))"
  define countd where "countd = snd (fold mean_step kvs ([], []))"
  define vals where "vals = (\<lambda>k. map value_fn (filter (\<lambda>ord. key_fn ord = k) orders))"
  have tot: "totald = aggregate_sum_by_key orders key_fn value_fn"
    by (simp add: totald_def mean_fold_fst aggregate_sum_by_key_def kvs_def)
  have cnt: "dict_get countd k 0 = int (length (vals k))" for k
    by (simp add: countd_def mean_fold_count kvs_def values_of_map vals_def)
  have tg: "dict_get totald k 0 = sum_list (vals k)" for k
    by (simp add: tot aggregate_sum_get vals_def)
  define keys where "keys = filter (\<lambda>key. dict_get countd key 0 > 0) (map fst totald)"
  define g where "g = (\<lambda>key. (key, sum_list (vals key) / real (length (vals key))))"
  have "map_res (\<lambda>key. bind_res (truediv (dict_get totald key 0) (of_int (dict_get countd key 0)))
                           (\<lambda>m. Inr (key, m))) keys = Inr (map g keys)"
  proof (rule map_res_Inr)
    fix x assume "x \<in> set keys"
    then have "dict_get countd x 0 > 0" by (simp add: keys_def)
    then show "bind_res (truediv (dict_get totald x 0) (of_int (dict_get countd x 0)))
                 (\<lambda>m. Inr (x, m)) = Inr (g x)"
      by (simp add: truediv_nonzero cnt tg g_def)
  qed
  then have res: "aggregate_mean_by_key orders key_fn value_fn = Inr (map g keys)"
    by (simp add: aggregate_mean_by_key_def kvs_def [symmetric] totald_def countd_def keys_def
        case_prod_beta)
  have keys: "k \<in> set keys \<longleftrightarrow> k \<in> key_fn ` set orders" for k
  proof -
    have "vals k \<noteq> []" if "k \<in> key_fn ` set orders"
      using that by (auto simp: vals_def filter_empty_conv)
    then show ?thesis
      by (auto simp: keys_def cnt tot aggregate_sum_keys)
  qed
  have "map_of (map g keys) k =
        (if k \<in> key_fn ` set orders then Some (sum_list (vals k) / real (length (vals k))) else None)" for k
    unfolding g_def by (simp add: map_of_tabulate keys)
  with res show ?thesis
    by (simp add: vals_def)
qed


subsection \<open>Sums and means by key\<close>

text \<open>
  Claim C2. For every record sequence, key function and value function, the sum helper maps
  each key that some record has to the arithmetic sum of the values of that key's records
  (and no other key), and the mean helper returns, without raising, the mapping of each such
  key to that sum divided by the number of that key's records. On the empty sequence both
  return the empty mapping.
\<close>

theorem aggregate_sum_mean_by_key_correct:
  "map_of (aggregate_sum_by_key orders key_fn value_fn) k =
     (if k \<in> key_fn ` set orders
      then Some (sum_list (map value_fn (filter (\<lambda>ord. key_fn ord = k) orders)))
      else None) \<and>
   (\<exists>means. aggregate_mean_by_key orders key_fn value_fn = Inr means \<and>
      (\<forall>k. map_of means k =
         (if k \<in> key_fn ` set orders
          then Some (sum_list (map value_fn (filter (\<lambda>ord. key_fn ord = k) orders)) /
                     real (length (filter (\<lambda>ord. key_fn ord = k) orders)))
          else None))) \<and>
   aggregate_sum_by_key [] key_fn value_fn = [] \<and>
   aggregate_mean_by_key [] key_fn value_fn = Inr []"
proof -
  have "aggregate_sum_by_key [] key_fn value_fn = []"
    by (simp add: aggregate_sum_by_key_def)
  moreover have "aggregate_mean_by_key [] key_fn value_fn = Inr []"
    by (simp add: aggregate_mean_by_key_def)
  ultimately show ?thesis
    using aggregate_sum_map_of [of orders key_fn value_fn k]
      aggregate_mean_map_of [of orders key_fn value_fn]
    by blast
qed

theorem aggregate_sum_mean_by_key_witness:
  "map_of (aggregate_sum_by_key test_orders category sales) ''Furniture'' = Some 300 \<and>
   (\<exists>means. aggregate_mean_by_key test_orders category profit = Inr means \<and>
      map_of means ''Furniture'' = Some 15 \<and> map_of means ''Office Supplies'' = Some 5 \<and>
      map_of means ''Technology'' = None)"
proof -
  have "map_of (aggregate_sum_by_key test_orders category sales) ''Furniture'' = Some 300"
    using aggregate_sum_mean_by_key_correct [of test_orders category sales "''Furniture''"]
    by (simp add: test_orders_def example_order_def)
  moreover
  obtain means where "aggregate_mean_by_key test_orders category profit = Inr means"
    and "\<And>k. map_of means k =
         (if k \<in> category ` set test_orders
          then Some (sum_list (map profit (filter (\<lambda>ord. category ord = k) test_orders)) /
                     real (length (filter (\<lambda>ord. category ord = k) test_orders)))
          else None)"
    using aggregate_sum_mean_by_key_correct [of test_orders category profit "''Furniture''"]
    by blast
  then have "aggregate_mean_by_key test_orders category profit = Inr means \<and>
      map_of means ''Furniture'' = Some 15 \<and> map_of means ''Office Supplies'' = Some 5 \<and>
      map_of means ''Technology'' = None"
    by (simp add: test_orders_def example_order_def)
  ultimately show ?thesis by blast
qed

subsection \<open>Discounted profit\<close>

text \<open>
  Claim C7. For every input, the total discounted profit is the sum of the profit of exactly
  the records whose discount is strictly greater than zero, and the discounted profit share
  is that sum divided by the sum of the profit of all records, or none exactly when the total
  profit of all records is zero.
\<close>

theorem total_discounted_profit_correct:
  "total_discounted_profit orders =
     sum_list (map profit (filter (\<lambda>ord. discount ord > 0) orders)) \<and>
   discounted_profit_share orders =
     Inr (if sum_list (map profit orders) = 0 then None
          else Some (sum_list (map profit (filter (\<lambda>ord. discount ord > 0) orders)) /
                     sum_list (map profit orders)))"
  by (simp add: total_discounted_profit_def discounted_profit_share_def aggregate_sum_get
      truediv_nonzero)

theorem total_discounted_profit_witness:
  "total_discounted_profit test_orders = 20 \<and>
   discounted_profit_share test_orders = Inr (Some (4 / 7))"
  using total_discounted_profit_correct [of test_orders]
  by (simp add: test_orders_def example_order_def)

subsection \<open>Average fulfillment time\<close>




subsection \<open>Profit margin per category and sub-category\<close>

lemma map_of_map_keyed:
  "map_of (map (\<lambda>(k, x). (k, g k x)) items) k = map_option (g k) (map_of items k)"
  by (induction items) auto

lemma map_fst_map_keyed: "map fst (map (\<lambda>(k, x). (k, g k x)) items) = map fst items"
  by (induction items) auto

lemma margin_step_eq:
  "margin_step total_profit (k, s) margins =
     Inr (AList.update k (if s \<noteq> 0 then Some (dict_get total_profit k 0 / s) else None) margins)"
  by (simp add: margin_step_def truediv_nonzero)

lemma profit_margin_eq:
  "profit_margin_by_category_subcategory orders =
     Inr (map (\<lambda>(k, s). (k, if s \<noteq> 0
                 then Some (dict_get (aggregate_sum_by_key orders (\<lambda>ord. (category ord, sub_category ord)) profit) k 0 / s)
                 else None))
            (aggregate_sum_by_key orders (\<lambda>ord. (category ord, sub_category ord)) sales))"
  unfolding profit_margin_by_category_subcategory_def Let_def
  by (subst fold_res_update_all [where g = "\<lambda>k s. if s \<noteq> 0
                 then Some (dict_get (aggregate_sum_by_key orders (\<lambda>ord. (category ord, sub_category ord)) profit) k 0 / s)
                 else None"])
    (simp_all add: margin_step_eq aggregate_sum_distinct)

text \<open>
  Claim C5. For every input, the profit margin query returns, without raising, a mapping whose
  keys are exactly the keys of the per-(category, sub-category) sales totals (in the same
  order). Each key maps to total profit divided by total sales of that key when the total
  sales are nonzero, and to none exactly when they are zero. As the keys are those of the
  sales totals, no other key of the profit totals can appear.
\<close>

theorem profit_margin_by_category_subcategory_correct:
  "\<exists>margins. profit_margin_by_category_subcategory orders = Inr margins \<and>
     map fst margins =
       map fst (aggregate_sum_by_key orders (\<lambda>ord. (category ord, sub_category ord)) sales) \<and>
     fst ` set margins = (\<lambda>ord. (category ord, sub_category ord)) ` set orders \<and>
     (\<forall>key. map_of margins key =
        (if key \<in> (\<lambda>ord. (category ord, sub_category ord)) ` set orders
         then Some
           (if sum_list (map sales (filter (\<lambda>ord. (category ord, sub_category ord) = key) orders)) = 0
            then None
            else Some
              (sum_list (map profit (filter (\<lambda>ord. (category ord, sub_category ord) = key) orders)) /
               sum_list (map sales (filter (\<lambda>ord. (category ord, sub_category ord) = key) orders))))
         else None))"
proof -
  define grp where "grp = (\<lambda>ord::Order. (category ord, sub_category ord))"
  define ts where "ts = aggregate_sum_by_key orders grp sales"
  define tp where "tp = aggregate_sum_by_key orders grp profit"
  define g where "g = (\<lambda>k s. if s \<noteq> 0 then Some (dict_get tp k 0 / s) else None)"
  define margins where "margins = map (\<lambda>(k, s). (k, g k s)) ts"
  have res: "profit_margin_by_category_subcategory orders = Inr margins"
    unfolding margins_def g_def ts_def tp_def grp_def by (rule profit_margin_eq)
  have keys: "map fst margins = map fst ts"
    unfolding margins_def by (rule map_fst_map_keyed)
  have kset: "fst ` set margins = grp ` set orders"
    using keys aggregate_sum_keys [of orders grp sales]
    by (metis ts_def list.set_map)
  have look: "map_of margins key =
        (if key \<in> grp ` set orders
         then Some (if sum_list (map sales (filter (\<lambda>ord. grp ord = key) orders)) = 0 then None
                    else Some (sum_list (map profit (filter (\<lambda>ord. grp ord = key) orders)) /
                               sum_list (map sales (filter (\<lambda>ord. grp ord = key) orders))))
         else None)" for key
    by (simp add: margins_def map_of_map_keyed ts_def aggregate_sum_map_of g_def tp_def
        aggregate_sum_get)
  show ?thesis
    using res keys kset look unfolding grp_def ts_def by blast
qed

theorem profit_margin_by_category_subcategory_witness:
  "\<exists>margins. profit_margin_by_category_subcategory margin_orders = Inr margins \<and>
     map_of margins (''Furniture'', ''Tables'') = Some (Some (3 / 10)) \<and>
     map_of margins (''Office Supplies'', ''Paper'') = Some None \<and>
     map_of margins (''Furniture'', ''Paper'') = None"
proof -
  obtain margins where "profit_margin_by_category_subcategory margin_orders = Inr margins"
    and "\<And>key. map_of margins key =
        (if key \<in> (\<lambda>ord. (category ord, sub_category ord)) ` set margin_orders
         then Some
           (if sum_list (map sales (filter (\<lambda>ord. (category ord, sub_category ord) = key) margin_orders)) = 0
            then None
            else Some
              (sum_list (map profit (filter (\<lambda>ord. (category ord, sub_category ord) = key) margin_orders)) /
               sum_list (map sales (filter (\<lambda>ord. (category ord, sub_category ord) = key) margin_orders))))
         else None)"
    using profit_margin_by_category_subcategory_correct [of margin_orders] by blast
  then have "profit_margin_by_category_subcategory margin_orders = Inr margins \<and>
     map_of margins (''Furniture'', ''Tables'') = Some (Some (3 / 10)) \<and>
     map_of margins (''Office Supplies'', ''Paper'') = Some None \<and>
     map_of margins (''Furniture'', ''Paper'') = None"
    by (simp add: margin_orders_def example_order_def)
  then show ?thesis by blast
qed

subsection \<open>Standard deviation by key\<close>

lemma welford_update_eq: "0 \<le> fst st \<Longrightarrow> welford_update v st = Inr (welford_next st v)"
  by (cases st) (simp add: welford_update_def welford_next_def truediv_nonzero Let_def)

lemma welford_next_count: "fst (welford_next st v) = fst st + 1"
  by (cases st) (simp add: welford_next_def)

lemma welford_next_m2:
  assumes "0 \<le> fst st" and "0 \<le> snd (snd st)"
  shows "0 \<le> snd (snd (welford_next st v))"
proof -
  obtain c m q where st: "st = (c, m, q)" by (cases st)
  define n where "n = real_of_int (c + 1)"
  have n: "1 \<le> n" using assms(1) by (simp add: st n_def)
  have "(v - m) * (v - (m + (v - m) / n)) = (v - m)\<^sup>2 * ((n - 1) / n)"
    using n by (simp add: field_simps power2_eq_square)
  moreover have "0 \<le> (v - m)\<^sup>2 * ((n - 1) / n)"
    using n by simp
  ultimately show ?thesis
    using assms(2) by (simp add: st welford_next_def n_def)
qed

lemma welford_foldl_count: "fst (foldl welford_next st vs) = fst st + int (length vs)"
  by (induction vs arbitrary: st) (simp_all add: welford_next_count)

lemma welford_foldl_m2:
  "0 \<le> fst st \<Longrightarrow> 0 \<le> snd (snd st) \<Longrightarrow> 0 \<le> snd (snd (foldl welford_next st vs))"
proof (induction vs arbitrary: st)
  case Nil
  then show ?case by simp
next
  case (Cons v vs)
  have "0 \<le> fst (welford_next st v)"
    using Cons.prems(1) by (simp add: welford_next_count)
  moreover have "0 \<le> snd (snd (welford_next st v))"
    using Cons.prems by (rule welford_next_m2)
  ultimately show ?case
    using Cons.IH [of "welford_next st v"] by simp
qed

lemma welford_state_count: "fst (welford_state vs) = int (length vs)"
  by (simp add: welford_state_def welford_foldl_count)

lemma welford_state_m2: "0 \<le> snd (snd (welford_state vs))"
  by (simp add: welford_state_def welford_foldl_m2)

lemma stddev_step_eq:
  "0 \<le> fst (dict_get stats (fst kv) (0, 0, 0)) \<Longrightarrow> stddev_step kv stats = Inr (welford_step kv stats)"
  by (cases kv) (simp add: stddev_step_def welford_step_def welford_update_eq)

lemma welford_step_get:
  "dict_get (welford_step kv stats) k (0, 0, 0) =
     (if k = fst kv then welford_next (dict_get stats k (0, 0, 0)) (snd kv)
      else dict_get stats k (0, 0, 0))"
  by (simp add: welford_step_def dict_get_update)

lemma welford_fold_get:
  "dict_get (fold welford_step kvs stats) k (0, 0, 0) =
     foldl welford_next (dict_get stats k (0, 0, 0)) (values_of k kvs)"
proof (induction kvs arbitrary: stats)
  case Nil
  show ?case by simp
next
  case (Cons kv kvs)
  obtain k' v where kv: "kv = (k', v)" by (cases kv)
  show ?case
    by (simp add: Cons.IH) (simp add: kv welford_step_get)
qed

lemma welford_fold_keys: "fst ` set (fold welford_step kvs stats) = fst ` set stats \<union> fst ` set kvs"
proof (induction kvs arbitrary: stats)
  case Nil
  show ?case by simp
next
  case (Cons kv kvs)
  show ?case
    by (simp add: Cons.IH) (simp add: welford_step_def keys_update)
qed

lemma welford_fold_distinct:
  "distinct (map fst stats) \<Longrightarrow> distinct (map fst (fold welford_step kvs stats))"
proof (induction kvs arbitrary: stats)
  case Nil
  then show ?case by simp
next
  case (Cons kv kvs)
  have "distinct (map fst (welford_step kv stats))"
    using Cons.prems by (simp add: welford_step_def distinct_update)
  then show ?case
    using Cons.IH by simp
qed

lemma stddev_fold_eq:
  "(\<And>k. 0 \<le> fst (dict_get stats k (0, 0, 0))) \<Longrightarrow>
     fold_res stddev_step kvs stats = Inr (fold welford_step kvs stats)"
proof (induction kvs arbitrary: stats)
  case Nil
  show ?case by simp
next
  case (Cons kv kvs)
  have "0 \<le> fst (dict_get (welford_step kv stats) k (0, 0, 0))" for k
    using Cons.prems [of k] Cons.prems [of "fst kv"]
    by (auto simp: welford_step_get welford_next_count)
  then have "fold_res stddev_step kvs (welford_step kv stats) =
             Inr (fold welford_step kvs (welford_step kv stats))"
    by (rule Cons.IH)
  then show ?case
    by (simp add: stddev_step_eq Cons.prems)
qed

lemma stddev_stats_eq:
  "stddev_stats orders key_fn value_fn =
     Inr (fold welford_step (map (\<lambda>ord. (key_fn ord, value_fn ord)) orders) [])"
  unfolding stddev_stats_def by (rule stddev_fold_eq) simp

lemma stddev_stats_entry:
  assumes "(k, st) \<in> set (fold welford_step (map (\<lambda>ord. (key_fn ord, value_fn ord)) orders) [])"
  shows "st = welford_state (map value_fn (filter (\<lambda>ord. key_fn ord = k) orders))"
    and "k \<in> key_fn ` set orders"
proof -
  define kvs where "kvs = map (\<lambda>ord. (key_fn ord, value_fn ord)) orders"
  define stats where "stats = fold welford_step kvs []"
  have "distinct (map fst stats)"
    by (simp add: stats_def welford_fold_distinct)
  with assms have "map_of stats k = Some st"
    by (simp add: stats_def kvs_def)
  then have "dict_get stats k (0, 0, 0) = st"
    by (rule dict_get_map_of)
  then show "st = welford_state (map value_fn (filter (\<lambda>ord. key_fn ord = k) orders))"
    by (simp add: stats_def welford_fold_get kvs_def values_of_map welford_state_def)
  have "k \<in> fst ` set stats"
    using assms by (force simp: stats_def kvs_def)
  then show "k \<in> key_fn ` set orders"
    by (simp add: stats_def welford_fold_keys kvs_def image_image)
qed

lemma stddev_denom_pos: "0 < cnt \<Longrightarrow> 0 < stddev_denom sample cnt"
  by (simp add: stddev_denom_def)

lemma stddev_finalize_step_eq:
  assumes "0 < cnt" and "0 \<le> m2"
  shows "stddev_finalize_step sample (k, cnt, mean, m2) res =
           Inr (AList.update k (welford_finalize sample (cnt, mean, m2)) res)"
proof -
  have d: "0 < stddev_denom sample cnt"
    using assms(1) by (rule stddev_denom_pos)
  then have "0 \<le> m2 / real_of_int (stddev_denom sample cnt)"
    using assms(2) by simp
  then show ?thesis
    using d assms(1)
    by (simp add: stddev_finalize_step_def welford_finalize_def truediv_nonzero math_sqrt_def Let_def)
qed


lemma aggregate_stddev_eq:
  "aggregate_stddev_by_key orders key_fn value_fn sample =
     Inr (map (\<lambda>(k, st). (k, welford_finalize sample st))
            (fold welford_step (map (\<lambda>ord. (key_fn ord, value_fn ord)) orders) []))"
proof -
  define stats where "stats = fold welford_step (map (\<lambda>ord. (key_fn ord, value_fn ord)) orders) []"
  have "fold_res (stddev_finalize_step sample) stats [] =
        Inr ([] @ map (\<lambda>(k, st). (k, welford_finalize sample st)) stats)"
  proof (rule fold_res_update_all)
    fix k st acc
    assume mem: "(k, st) \<in> set stats"
    define vs where "vs = map value_fn (filter (\<lambda>ord. key_fn ord = k) orders)"
    have st: "st = welford_state vs" and k: "k \<in> key_fn ` set orders"
      using stddev_stats_entry [of k st key_fn value_fn orders] mem
      by (simp_all add: stats_def vs_def)
    have "vs \<noteq> []"
      using k by (auto simp: vs_def filter_empty_conv)
    then have "0 < fst st"
      by (simp add: st welford_state_count)
    moreover have "0 \<le> snd (snd st)"
      by (simp add: st welford_state_m2)
    ultimately show "stddev_finalize_step sample (k, st) acc =
        Inr (AList.update k (welford_finalize sample st) acc)"
      using stddev_finalize_step_eq [of "fst st" "snd (snd st)" sample k "fst (snd st)" acc]
      by simp
  next
    show "distinct (map fst stats)"
      by (simp add: stats_def welford_fold_distinct)
  next
    show "fst ` set stats \<inter> fst ` set [] = {}" by simp
  qed
  then show ?thesis
    by (simp add: aggregate_stddev_by_key_def stddev_stats_eq stats_def)
qed

lemma stddev_stats_map_of:
  "map_of (fold welford_step (map (\<lambda>ord. (key_fn ord, value_fn ord)) orders) []) k =
     (if k \<in> key_fn ` set orders
      then Some (welford_state (map value_fn (filter (\<lambda>ord. key_fn ord = k) orders)))
      else None)"
proof -
  define kvs where "kvs = map (\<lambda>ord. (key_fn ord, value_fn ord)) orders"
  define stats where "stats = fold welford_step kvs []"
  have keys: "fst ` set stats = key_fn ` set orders"
    by (simp add: stats_def welford_fold_keys kvs_def image_image)
  have get: "dict_get stats k (0, 0, 0) =
             welford_state (map value_fn (filter (\<lambda>ord. key_fn ord = k) orders))"
    by (simp add: stats_def welford_fold_get kvs_def values_of_map welford_state_def)
  show ?thesis
  proof (cases "k \<in> key_fn ` set orders")
    case True
    then have "k \<in> fst ` set stats" by (simp add: keys)
    from map_of_dict_get [OF this, of "(0, 0, 0)", unfolded get] True show ?thesis
      by (simp add: stats_def kvs_def)
  next
    case False
    then have "k \<notin> fst ` set stats" by (simp add: keys)
    with False show ?thesis
      by (simp add: map_of_eq_None_iff stats_def kvs_def)
  qed
qed

lemma welford_state_single: "welford_state [v] = (1, v, 0)"
  by (simp add: welford_state_def welford_next_def)

lemma sqrt_2500: "sqrt 2500 = 50"
  by (rule real_sqrt_unique) simp_all

lemma test_orders_stats:
  "stddev_stats test_orders category sales =
     Inr [(''Furniture'', 2, 150, 5000), (''Office Supplies'', 1, 50, 0)]"
  by (simp add: stddev_stats_def stddev_step_def welford_update_def truediv_def dict_get_def
      test_orders_def example_order_def Let_def)

text \<open>
  Claim C1, as the code has it. For every record sequence, key function, value function and
  mode, the standard deviation helper returns without raising; the state of each key after
  the first loop is the Welford state of that key's values in stream order
  (\<open>count += 1; delta = v - mean; mean += delta / count; delta2 = v - mean;
  M2 += delta * delta2\<close> from \<open>(0, 0, 0)\<close>), and each key that some record has is finalized
  as \<open>sqrt (M2 / denom)\<close> with \<open>denom = count - 1\<close> when sample is true and \<open>count > 1\<close>, else
  \<open>count\<close>. This \<open>denom\<close> is never zero, so no such key is omitted: a key with exactly one
  observation is present with standard deviation 0, in sample mode as in population mode.
\<close>

theorem aggregate_stddev_by_key_welford:
  "\<exists>stats res.
     stddev_stats orders key_fn value_fn = Inr stats \<and>
     aggregate_stddev_by_key orders key_fn value_fn sample = Inr res \<and>
     (\<forall>k. map_of stats k =
            (if k \<in> key_fn ` set orders
             then Some (welford_state (map value_fn (filter (\<lambda>ord. key_fn ord = k) orders)))
             else None) \<and>
          map_of res k =
            (if k \<in> key_fn ` set orders
             then Some (welford_finalize sample
                          (welford_state (map value_fn (filter (\<lambda>ord. key_fn ord = k) orders))))
             else None) \<and>
          (length (filter (\<lambda>ord. key_fn ord = k) orders) = 1 \<longrightarrow> map_of res k = Some 0))"
proof -
  define stats where "stats = fold welford_step (map (\<lambda>ord. (key_fn ord, value_fn ord)) orders) []"
  define res where "res = map (\<lambda>(k, st). (k, welford_finalize sample st)) stats"
  define vs where "vs = (\<lambda>k. map value_fn (filter (\<lambda>ord. key_fn ord = k) orders))"
  have s: "stddev_stats orders key_fn value_fn = Inr stats"
    by (simp add: stddev_stats_eq stats_def)
  have r: "aggregate_stddev_by_key orders key_fn value_fn sample = Inr res"
    unfolding res_def stats_def by (rule aggregate_stddev_eq)
  have ms: "map_of stats k =
        (if k \<in> key_fn ` set orders then Some (welford_state (vs k)) else None)" for k
    unfolding stats_def vs_def by (rule stddev_stats_map_of)
  have mr: "map_of res k =
        (if k \<in> key_fn ` set orders then Some (welford_finalize sample (welford_state (vs k)))
         else None)" for k
    by (simp add: res_def map_of_map_keyed ms)
  have single: "map_of res k = Some 0" if "length (filter (\<lambda>ord. key_fn ord = k) orders) = 1" for k
  proof -
    from that obtain x where x: "filter (\<lambda>ord. key_fn ord = k) orders = [x]"
      by (cases "filter (\<lambda>ord. key_fn ord = k) orders") auto
    then have "x \<in> set (filter (\<lambda>ord. key_fn ord = k) orders)" by simp
    then have "k \<in> key_fn ` set orders" by auto
    then show ?thesis
      by (simp add: mr vs_def x welford_state_single welford_finalize_def)
  qed
  show ?thesis
    using s r ms mr single unfolding vs_def by blast
qed

theorem aggregate_stddev_by_key_welford_witness:
  "\<exists>stats res.
     stddev_stats test_orders category sales = Inr stats \<and>
     aggregate_stddev_by_key test_orders category sales False = Inr res \<and>
     map_of stats ''Furniture'' = Some (2, 150, 5000) \<and>
     map_of res ''Furniture'' = Some 50 \<and>
     length (filter (\<lambda>ord. category ord = ''Office Supplies'') test_orders) = 1 \<and>
     map_of res ''Office Supplies'' = Some 0 \<and>
     map_of res ''Technology'' = None"
proof -
  obtain stats res where s: "stddev_stats test_orders category sales = Inr stats"
    and r: "aggregate_stddev_by_key test_orders category sales False = Inr res"
    and all: "\<And>k. map_of res k =
            (if k \<in> category ` set test_orders
             then Some (welford_finalize False
                          (welford_state (map sales (filter (\<lambda>ord. category ord = k) test_orders))))
             else None) \<and>
          (length (filter (\<lambda>ord. category ord = k) test_orders) = 1 \<longrightarrow> map_of res k = Some 0)"
    using aggregate_stddev_by_key_welford [of test_orders category sales False] by blast
  have one: "length (filter (\<lambda>ord. category ord = ''Office Supplies'') test_orders) = 1"
    by (simp add: test_orders_def example_order_def)
  have "map_of stats ''Furniture'' = Some (2, 150, 5000)"
    using s by (auto simp: test_orders_stats)
  moreover have "map_of res ''Furniture'' = Some 50"
    using all [of "''Furniture''"]
    by (simp add: test_orders_def example_order_def welford_state_def welford_next_def
        welford_finalize_def stddev_denom_def sqrt_2500)
  moreover have "map_of res ''Office Supplies'' = Some 0"
    using all [of "''Office Supplies''"] one by blast
  moreover have "map_of res ''Technology'' = None"
    using all [of "''Technology''"] by (simp add: test_orders_def example_order_def)
  ultimately show ?thesis
    using s r one by blast
qed

text \<open>
  Claim C1 as stated fails: in sample mode a key with exactly one observation is not omitted
  but mapped to 0.
\<close>

theorem aggregate_stddev_sample_singleton_counterexample:
  "aggregate_stddev_by_key [example_order ''Office Supplies'' ''Paper'' 2020 ''US'' 50 5 0]
     category sales True = Inr [(''Office Supplies'', 0)]"
  by (simp add: aggregate_stddev_by_key_def stddev_stats_def stddev_step_def welford_update_def
      truediv_def dict_get_def stddev_finalize_step_def stddev_denom_def math_sqrt_def
      example_order_def Let_def)

text \<open>
  Claim C10. For every record sequence the first loop returns without raising, the
  accumulated \<open>M2\<close> of every key is nonnegative, and the divisor \<open>denom\<close> is strictly
  positive for every key, so the argument of the square root is nonnegative and the whole
  helper returns without raising.
\<close>

theorem aggregate_stddev_by_key_safe:
  "\<exists>stats res.
     stddev_stats orders key_fn value_fn = Inr stats \<and>
     (\<forall>(k, cnt, mean, m2) \<in> set stats.
        0 \<le> m2 \<and> 0 < stddev_denom sample cnt \<and> 0 \<le> m2 / real_of_int (stddev_denom sample cnt)) \<and>
     aggregate_stddev_by_key orders key_fn value_fn sample = Inr res"
proof -
  define stats where "stats = fold welford_step (map (\<lambda>ord. (key_fn ord, value_fn ord)) orders) []"
  have s: "stddev_stats orders key_fn value_fn = Inr stats"
    by (simp add: stddev_stats_eq stats_def)
  have "0 \<le> m2 \<and> 0 < stddev_denom sample cnt \<and> 0 \<le> m2 / real_of_int (stddev_denom sample cnt)"
    if mem: "(k, cnt, mean, m2) \<in> set stats" for k cnt mean m2
  proof -
    define vs where "vs = map value_fn (filter (\<lambda>ord. key_fn ord = k) orders)"
    have st: "(cnt, mean, m2) = welford_state vs" and k: "k \<in> key_fn ` set orders"
      using stddev_stats_entry [of k "(cnt, mean, m2)" key_fn value_fn orders] mem
      by (simp_all add: stats_def vs_def)
    have "vs \<noteq> []"
      using k by (auto simp: vs_def filter_empty_conv)
    then have c: "0 < cnt"
      using welford_state_count [of vs] by (simp add: st [symmetric])
    have q: "0 \<le> m2"
      using welford_state_m2 [of vs] by (simp add: st [symmetric])
    have d: "0 < stddev_denom sample cnt"
      using c by (rule stddev_denom_pos)
    with q show ?thesis by simp
  qed
  then have "\<forall>(k, cnt, mean, m2) \<in> set stats.
        0 \<le> m2 \<and> 0 < stddev_denom sample cnt \<and> 0 \<le> m2 / real_of_int (stddev_denom sample cnt)"
    by blast
  with s aggregate_stddev_eq [of orders key_fn value_fn sample] show ?thesis
    by blast
qed


theorem aggregate_stddev_by_key_safe_witness:
  "\<exists>stats res.
     stddev_stats test_orders category sales = Inr stats \<and>
     (''Furniture'', 2, 150, 5000) \<in> set stats \<and>
     0 < stddev_denom True 2 \<and>
     0 \<le> (5000::real) / real_of_int (stddev_denom True 2) \<and>
     aggregate_stddev_by_key test_orders category sales True = Inr res"
proof -
  obtain stats res where s: "stddev_stats test_orders category sales = Inr stats"
    and all: "\<forall>(k, cnt, mean, m2) \<in> set stats.
        0 \<le> m2 \<and> 0 < stddev_denom True cnt \<and> 0 \<le> m2 / real_of_int (stddev_denom True cnt)"
    and r: "aggregate_stddev_by_key test_orders category sales True = Inr res"
    using aggregate_stddev_by_key_safe [of test_orders category sales True] by blast
  have mem: "(''Furniture'', 2, 150, 5000) \<in> set stats"
    using s by (auto simp: test_orders_stats)
  with all have "0 < stddev_denom True 2 \<and>
     0 \<le> (5000::real) / real_of_int (stddev_denom True 2)"
    by fastforce
  with s r mem show ?thesis by blast
qed

subsection \<open>Year-over-year trends\<close>











lemma yoy_walk_zip:
  "yoy_walk prev es =
     map (\<lambda>(p, e). (fst e, snd e, p, yoy_change_of p (snd e))) (zip (prev # map (\<lambda>e. Some (snd e)) es) es)"
  by (induction prev es rule: yoy_walk.induct) simp_all

lemma yoy_walk_length [simp]: "length (yoy_walk prev es) = length es"
  by (simp add: yoy_walk_zip)

















subsection \<open>The heap and the top categories by margin\<close>

lemma parent_pos_less: "0 < i \<Longrightarrow> parent_pos i < i"
  by (simp add: parent_pos_def)

lemma parent_pos_children: "0 < i \<Longrightarrow> parent_pos i = p \<longleftrightarrow> i = 2 * p + 1 \<or> i = 2 * p + 2"
  by (auto simp: parent_pos_def)

lemma siftdown_loop_length [simp]:
  "length (siftdown_loop heap startpos newitem pos) = length heap"
  by (induction heap startpos newitem pos rule: siftdown_loop.induct)
    (subst siftdown_loop.simps, simp add: Let_def)

lemma mset_hole_move:
  assumes "pos < length h" and "pp < length h" and "pp \<noteq> pos"
  shows "mset (h[pos := h ! pp, pp := x]) = mset (h[pos := x])"
proof -
  define ls where "ls = h[pos := x]"
  have "mset (ls[pos := ls ! pp, pp := ls ! pos]) = mset ls"
    using assms by (intro mset_swap) (simp_all add: ls_def)
  moreover have "ls[pos := ls ! pp, pp := ls ! pos] = h[pos := h ! pp, pp := x]"
    using assms by (simp add: ls_def)
  ultimately show ?thesis by (simp add: ls_def)
qed

lemma siftdown_loop_mset:
  "pos < length heap \<Longrightarrow> mset (siftdown_loop heap 0 newitem pos) = mset (heap[pos := newitem])"
proof (induction heap "0::nat" newitem pos rule: siftdown_loop.induct)
  case (1 heap newitem pos)
  show ?case
  proof (cases "0 < pos \<and> newitem < heap ! ((pos - 1) div 2)")
    case False
    then show ?thesis by (subst siftdown_loop.simps) (auto simp: Let_def)
  next
    case True
    define pp where "pp = (pos - 1) div 2"
    have pp: "pp < pos" using True parent_pos_less [of pos] by (simp add: pp_def parent_pos_def)
    have "mset (siftdown_loop (heap[pos := heap ! pp]) 0 newitem pp) =
          mset (heap[pos := heap ! pp, pp := newitem])"
      using "1.hyps" [of pp "heap ! pp"] True pp "1.prems" by (simp add: pp_def)
    also have "\<dots> = mset (heap[pos := newitem])"
      using pp "1.prems" by (intro mset_hole_move) simp_all
    finally show ?thesis
      using True by (subst siftdown_loop.simps) (simp add: Let_def pp_def)
  qed
qed

lemma is_heapD: "is_heap h \<Longrightarrow> 0 < i \<Longrightarrow> i < length h \<Longrightarrow> h ! parent_pos i \<le> h ! i"
  by (simp add: is_heap_def)

lemma heap_holeD:
  assumes "heap_hole h pos" and "0 < i" and "i < length h" and "i \<noteq> pos"
  shows "parent_pos i \<noteq> pos \<Longrightarrow> h ! parent_pos i \<le> h ! i"
    and "parent_pos i = pos \<Longrightarrow> 0 < pos \<Longrightarrow> h ! parent_pos pos \<le> h ! i"
  using assms by (auto simp: heap_hole_def)

lemma below_childrenD:
  "below_children h pos x \<Longrightarrow> 0 < i \<Longrightarrow> i < length h \<Longrightarrow> parent_pos i = pos \<Longrightarrow> x \<le> h ! i"
  by (simp add: below_children_def)

text \<open>Closing the hole with an item between its parent and its children gives a heap.\<close>

lemma heap_hole_close:
  assumes hole: "heap_hole h pos" and below: "below_children h pos x"
    and above: "0 < pos \<Longrightarrow> h ! parent_pos pos \<le> x"
  shows "is_heap (h[pos := x])"
  unfolding is_heap_def
proof
  fix i assume "i \<in> {1..<length (h[pos := x])}"
  then have i: "0 < i" "i < length h" by simp_all
  have pi: "parent_pos i < i" using i(1) by (rule parent_pos_less)
  have pos: "pos < length h" using hole by (simp add: heap_hole_def)
  show "h[pos := x] ! parent_pos i \<le> h[pos := x] ! i"
  proof (cases "i = pos")
    case True
    then have "parent_pos i \<noteq> pos" using pi by simp
    then show ?thesis
      using True above i pos by simp
  next
    case False
    show ?thesis
    proof (cases "parent_pos i = pos")
      case True
      then show ?thesis
        using False below_childrenD [OF below i] i pos by simp
    next
      case p: False
      then show ?thesis
        using False heap_holeD(1) [OF hole i False] by simp
    qed
  qed
qed

text \<open>One step of the loop of \<^verbatim>\<open>_siftdown\<close>: the parent moves down into the hole.\<close>

lemma heap_hole_up:
  assumes hole: "heap_hole h pos" and below: "below_children h pos x"
    and pos: "0 < pos" and lt: "x < h ! parent_pos pos"
  shows "heap_hole (h[pos := h ! parent_pos pos]) (parent_pos pos)"
    and "below_children (h[pos := h ! parent_pos pos]) (parent_pos pos) x"
proof -
  define pp where "pp = parent_pos pos"
  define h' where "h' = h[pos := h ! pp]"
  have len: "pos < length h" using hole by (simp add: heap_hole_def)
  have pp: "pp < pos" unfolding pp_def using pos by (rule parent_pos_less)
  have ppp: "0 < pp \<Longrightarrow> parent_pos pp < pp" by (rule parent_pos_less)
  have up: "0 < pp \<Longrightarrow> h ! parent_pos pp \<le> h ! pp"
  proof -
    assume "0 < pp"
    moreover have "parent_pos pp \<noteq> pos" using ppp [OF \<open>0 < pp\<close>] pp by simp
    ultimately show ?thesis
      using heap_holeD(1) [OF hole, of pp] pp len by simp
  qed
  have sib: "h ! pp \<le> h ! i" if "0 < i" "i < length h" "i \<noteq> pos" "parent_pos i = pp" for i
    using heap_holeD(1) [OF hole that(1,2,3)] that(4) pp by simp
  have "heap_hole h' pp"
    unfolding heap_hole_def
  proof (intro conjI ballI impI)
    show "pp < length h'" using pp len by (simp add: h'_def)
  next
    fix i assume "i \<in> {1..<length h'}" and ne: "i \<noteq> pp"
    then have i: "0 < i" "i < length h" by (simp_all add: h'_def)
    have pi: "parent_pos i < i" using i(1) by (rule parent_pos_less)
    show "if parent_pos i = pp then 0 < pp \<longrightarrow> h' ! parent_pos pp \<le> h' ! i
          else h' ! parent_pos i \<le> h' ! i"
    proof (cases "parent_pos i = pp")
      case True
      have "h' ! parent_pos pp \<le> h' ! i" if "0 < pp"
      proof -
        have a: "h' ! parent_pos pp = h ! parent_pos pp"
          using ppp [OF that] pp by (simp add: h'_def)
        show ?thesis
        proof (cases "i = pos")
          case True
          then show ?thesis using a up [OF that] len by (simp add: h'_def)
        next
          case False
          then have "h' ! i = h ! i" by (simp add: h'_def)
          then show ?thesis
            using a up [OF that] sib [OF i False True] by simp
        qed
      qed
      with True show ?thesis by simp
    next
      case False
      then have ip: "i \<noteq> pos" by (auto simp: pp_def)
      then have hi: "h' ! i = h ! i" by (simp add: h'_def)
      show ?thesis
      proof (cases "parent_pos i = pos")
        case True
        then have "h' ! parent_pos i = h ! pp" using len by (simp add: h'_def)
        moreover have "h ! pp \<le> h ! i"
          using heap_holeD(2) [OF hole i ip True pos] by (simp add: pp_def)
        ultimately show ?thesis using False hi by simp
      next
        case p: False
        then have "h' ! parent_pos i = h ! parent_pos i" by (simp add: h'_def)
        then show ?thesis
          using False hi heap_holeD(1) [OF hole i ip p] by simp
      qed
    qed
  qed
  then show "heap_hole (h[pos := h ! parent_pos pos]) (parent_pos pos)"
    by (simp add: h'_def pp_def)
  have "below_children h' pp x"
    unfolding below_children_def
  proof (intro ballI impI)
    fix i assume "i \<in> {1..<length h'}" and par: "parent_pos i = pp"
    then have i: "0 < i" "i < length h" by (simp_all add: h'_def)
    show "x \<le> h' ! i"
    proof (cases "i = pos")
      case True
      then show ?thesis using lt len by (simp add: h'_def pp_def)
    next
      case False
      then have "h' ! i = h ! i" by (simp add: h'_def)
      then show ?thesis
        using sib [OF i False par] lt by (simp add: pp_def)
    qed
  qed
  then show "below_children (h[pos := h ! parent_pos pos]) (parent_pos pos) x"
    by (simp add: h'_def pp_def)
qed

lemma siftdown_loop_heap:
  "heap_hole heap pos \<Longrightarrow> below_children heap pos newitem \<Longrightarrow>
     is_heap (siftdown_loop heap 0 newitem pos)"
proof (induction heap "0::nat" newitem pos rule: siftdown_loop.induct)
  case (1 heap newitem pos)
  show ?case
  proof (cases "0 < pos \<and> newitem < heap ! parent_pos pos")
    case False
    then have "0 < pos \<Longrightarrow> heap ! parent_pos pos \<le> newitem" by auto
    with "1.prems" have "is_heap (heap[pos := newitem])"
      by (intro heap_hole_close)
    then show ?thesis
      using False by (subst siftdown_loop.simps) (auto simp: Let_def parent_pos_def)
  next
    case True
    have "is_heap (siftdown_loop (heap[pos := heap ! parent_pos pos]) 0 newitem (parent_pos pos))"
      using "1.hyps" [of "parent_pos pos" "heap ! parent_pos pos"] True
        heap_hole_up [OF "1.prems"]
      by (simp add: parent_pos_def)
    then show ?thesis
      using True by (subst siftdown_loop.simps) (simp add: Let_def parent_pos_def)
  qed
qed

text \<open>One step of the loop of \<^verbatim>\<open>_siftup\<close>: the smaller child moves up into the hole.\<close>

lemma heap_hole_down:
  assumes hole: "heap_hole h pos" and c: "0 < c" "c < length h" "parent_pos c = pos"
    and small: "\<And>i. 0 < i \<Longrightarrow> i < length h \<Longrightarrow> parent_pos i = pos \<Longrightarrow> h ! c \<le> h ! i"
  shows "heap_hole (h[pos := h ! c]) c"
proof -
  define h' where "h' = h[pos := h ! c]"
  have len: "pos < length h" using hole by (simp add: heap_hole_def)
  have cp: "pos < c" using parent_pos_less [OF c(1)] c(3) by simp
  have "heap_hole h' c"
    unfolding heap_hole_def
  proof (intro conjI ballI impI)
    show "c < length h'" using c by (simp add: h'_def)
  next
    fix i assume "i \<in> {1..<length h'}" and ne: "i \<noteq> c"
    then have i: "0 < i" "i < length h" by (simp_all add: h'_def)
    have pi: "parent_pos i < i" using i(1) by (rule parent_pos_less)
    show "if parent_pos i = c then 0 < c \<longrightarrow> h' ! parent_pos c \<le> h' ! i
          else h' ! parent_pos i \<le> h' ! i"
    proof (cases "parent_pos i = c")
      case True
      then have ip: "i \<noteq> pos" using pi cp by simp
      then have "h' ! i = h ! i" by (simp add: h'_def)
      moreover have "h' ! parent_pos c = h ! c" using c(3) len by (simp add: h'_def)
      moreover have "h ! c \<le> h ! i"
        using heap_holeD(1) [OF hole i ip] True cp by simp
      ultimately show ?thesis using True by simp
    next
      case False
      show ?thesis
      proof (cases "i = pos")
        case True
        then have "0 < pos" using i by simp
        have "parent_pos pos \<noteq> pos" using parent_pos_less [OF \<open>0 < pos\<close>] by simp
        then have "h' ! parent_pos pos = h ! parent_pos pos" by (simp add: h'_def)
        moreover have "h' ! pos = h ! c" using len by (simp add: h'_def)
        moreover have "h ! parent_pos pos \<le> h ! c"
          using heap_holeD(2) [OF hole c(1,2) _ c(3) \<open>0 < pos\<close>] cp by simp
        ultimately show ?thesis using False True by simp
      next
        case ip: False
        then have hi: "h' ! i = h ! i" by (simp add: h'_def)
        show ?thesis
        proof (cases "parent_pos i = pos")
          case True
          then have "h' ! parent_pos i = h ! c" using len by (simp add: h'_def)
          then show ?thesis using False hi small [OF i True] by simp
        next
          case p: False
          then have "h' ! parent_pos i = h ! parent_pos i" by (simp add: h'_def)
          then show ?thesis using False hi heap_holeD(1) [OF hole i ip p] by simp
        qed
      qed
    qed
  qed
  then show ?thesis by (simp add: h'_def)
qed

lemma siftup_loop_hole:
  assumes "heap_hole heap pos" and "childpos = 2 * pos + 1" and "endpos = length heap"
    and "siftup_loop heap endpos pos childpos = (h', pos')"
  shows "heap_hole h' pos' \<and> length h' = length heap \<and> length heap \<le> 2 * pos' + 1 \<and>
         (\<forall>x. mset (h'[pos' := x]) = mset (heap[pos := x]))"
  using assms
proof (induction heap endpos pos childpos rule: siftup_loop.induct)
  case (1 heap endpos pos childpos)
  show ?case
  proof (cases "childpos < endpos")
    case False
    then have "h' = heap" "pos' = pos"
      using "1.prems"(4) by (subst (asm) siftup_loop.simps, simp)+
    then show ?thesis
      using "1.prems"(1,2,3) False by simp
  next
    case True
    define c where "c = (if childpos + 1 < endpos \<and> \<not> heap ! childpos < heap ! (childpos + 1)
                         then childpos + 1 else childpos)"
    define h2 where "h2 = heap[pos := heap ! c]"
    have "siftup_loop heap endpos pos childpos = siftup_loop h2 endpos c (2 * c + 1)"
      using True by (subst siftup_loop.simps) (simp add: Let_def c_def h2_def)
    then have rec: "siftup_loop h2 endpos c (2 * c + 1) = (h', pos')"
      using "1.prems"(4) by simp
    have len: "pos < length heap" using "1.prems"(1) by (simp add: heap_hole_def)
    have c_range: "0 < c" "c < length heap"
      using True "1.prems"(2,3) by (auto simp: c_def)
    have c_par: "parent_pos c = pos"
      using "1.prems"(2) by (auto simp: c_def parent_pos_def)
    have cp: "pos < c" using parent_pos_less [OF c_range(1)] c_par by simp
    have small: "heap ! c \<le> heap ! i" if "0 < i" "i < length heap" "parent_pos i = pos" for i
    proof -
      have "i = childpos \<or> i = childpos + 1"
        using parent_pos_children [OF that(1), of pos] that(3) "1.prems"(2) by simp
      then show ?thesis
        using that(2) "1.prems"(3) by (auto simp: c_def)
    qed
    have hole2: "heap_hole h2 c"
      unfolding h2_def using "1.prems"(1) c_range c_par small by (rule heap_hole_down)
    have "heap_hole h' pos' \<and> length h' = length h2 \<and> length h2 \<le> 2 * pos' + 1 \<and>
         (\<forall>x. mset (h'[pos' := x]) = mset (h2[c := x]))"
    proof (rule "1.IH" [OF True refl c_def h2_def refl])
      show "heap_hole h2 c" by (rule hole2)
      show "2 * c + 1 = 2 * c + 1" by simp
      show "endpos = length h2" using "1.prems"(3) by (simp add: h2_def)
      show "siftup_loop h2 endpos c (2 * c + 1) = (h', pos')" by (rule rec)
    qed
    moreover have "mset (h2[c := x]) = mset (heap[pos := x])" for x
      unfolding h2_def using len c_range cp by (intro mset_hole_move) simp_all
    ultimately show ?thesis
      by (simp add: h2_def)
  qed
qed

lemma heap_hole_update: "heap_hole h pos \<Longrightarrow> heap_hole (h[pos := v]) pos"
proof -
  assume hole: "heap_hole h pos"
  show ?thesis
    unfolding heap_hole_def
  proof (intro conjI ballI impI)
    show "pos < length (h[pos := v])" using hole by (simp add: heap_hole_def)
  next
    fix i assume "i \<in> {1..<length (h[pos := v])}" and ne: "i \<noteq> pos"
    then have i: "0 < i" "i < length h" by simp_all
    show "if parent_pos i = pos then 0 < pos \<longrightarrow> h[pos := v] ! parent_pos pos \<le> h[pos := v] ! i
          else h[pos := v] ! parent_pos i \<le> h[pos := v] ! i"
    proof (cases "parent_pos i = pos")
      case True
      have "h[pos := v] ! parent_pos pos \<le> h[pos := v] ! i" if "0 < pos"
        using heap_holeD(2) [OF hole i ne True that] parent_pos_less [OF that] ne by simp
      with True show ?thesis by simp
    next
      case False
      then show ?thesis
        using heap_holeD(1) [OF hole i ne False] ne by simp
    qed
  qed
qed

lemma is_heap_hole_end: "is_heap h \<Longrightarrow> heap_hole (h @ [x]) (length h)"
  unfolding heap_hole_def
proof (intro conjI ballI impI)
  show "length h < length (h @ [x])" by simp
next
  fix i assume heap: "is_heap h" and "i \<in> {1..<length (h @ [x])}" and ne: "i \<noteq> length h"
  then have i: "0 < i" "i < length h" by simp_all
  have pi: "parent_pos i < i" using i(1) by (rule parent_pos_less)
  then have "parent_pos i \<noteq> length h" using i(2) by simp
  moreover have "(h @ [x]) ! parent_pos i \<le> (h @ [x]) ! i"
    using is_heapD [OF heap i] pi i(2) by (simp add: nth_append)
  ultimately show "if parent_pos i = length h
      then 0 < length h \<longrightarrow> (h @ [x]) ! parent_pos (length h) \<le> (h @ [x]) ! i
      else (h @ [x]) ! parent_pos i \<le> (h @ [x]) ! i"
    by simp
qed

lemma below_children_leaf: "length h \<le> 2 * pos + 1 \<Longrightarrow> below_children h pos x"
  unfolding below_children_def
proof (intro ballI impI)
  fix i assume "length h \<le> 2 * pos + 1" and "i \<in> {1..<length h}" and "parent_pos i = pos"
  then have False
    using parent_pos_children [of i pos] by auto
  then show "x \<le> h ! i" ..
qed

lemma heappush_eq: "heappush heap item = siftdown_loop (heap @ [item]) 0 item (length heap)"
  by (simp add: heappush_def siftdown_def)

lemma heappush_length [simp]: "length (heappush heap item) = Suc (length heap)"
  by (simp add: heappush_eq)

lemma heappush_mset [simp]: "mset (heappush heap item) = add_mset item (mset heap)"
  by (simp add: heappush_eq siftdown_loop_mset)

lemma heappush_heap: "is_heap heap \<Longrightarrow> is_heap (heappush heap item)"
  unfolding heappush_eq
  by (intro siftdown_loop_heap is_heap_hole_end below_children_leaf) simp_all

lemma is_heap_butlast: "is_heap h \<Longrightarrow> is_heap (butlast h)"
  unfolding is_heap_def
proof
  fix i assume heap: "\<forall>i \<in> {1..<length h}. h ! parent_pos i \<le> h ! i"
    and "i \<in> {1..<length (butlast h)}"
  then have i: "0 < i" "i < length h - 1" by simp_all
  have "parent_pos i < i" using i(1) by (rule parent_pos_less)
  then have "butlast h ! parent_pos i = h ! parent_pos i" "butlast h ! i = h ! i"
    using i(2) by (simp_all add: nth_butlast)
  moreover have "h ! parent_pos i \<le> h ! i"
    using heap i by simp
  ultimately show "butlast h ! parent_pos i \<le> butlast h ! i" by simp
qed

lemma is_heap_hole_root:
  assumes "is_heap h" and "h \<noteq> []"
  shows "heap_hole (h[0 := x]) 0"
  unfolding heap_hole_def
proof (intro conjI ballI impI)
  show "0 < length (h[0 := x])" using assms(2) by simp
next
  fix i assume "i \<in> {1..<length (h[0 := x])}" and ne: "i \<noteq> 0"
  then have i: "0 < i" "i < length h" by simp_all
  show "if parent_pos i = 0 then 0 < (0::nat) \<longrightarrow> h[0 := x] ! parent_pos 0 \<le> h[0 := x] ! i
        else h[0 := x] ! parent_pos i \<le> h[0 := x] ! i"
    using is_heapD [OF assms(1) i] i by simp
qed

lemma siftup_root:
  assumes "heap_hole h 0"
  shows "is_heap (siftup h 0) \<and> mset (siftup h 0) = mset h"
proof -
  obtain h1 p1 where loop: "siftup_loop h (length h) 0 (2 * 0 + 1) = (h1, p1)"
    by (cases "siftup_loop h (length h) 0 (2 * 0 + 1)")
  from siftup_loop_hole [OF assms refl refl loop]
  have hole: "heap_hole h1 p1" and len: "length h1 = length h"
    and leaf: "length h \<le> 2 * p1 + 1"
    and ms: "\<And>x. mset (h1[p1 := x]) = mset (h[0 := x])"
    by simp_all
  have p1: "p1 < length h1" using hole by (simp add: heap_hole_def)
  have eq: "siftup h 0 = siftdown_loop (h1[p1 := h ! 0]) 0 (h ! 0) p1"
    using loop p1 by (simp add: siftup_def siftdown_def Let_def)
  have "is_heap (siftdown_loop (h1[p1 := h ! 0]) 0 (h ! 0) p1)"
    using hole leaf len
    by (intro siftdown_loop_heap heap_hole_update below_children_leaf) simp_all
  moreover have "mset (siftdown_loop (h1[p1 := h ! 0]) 0 (h ! 0) p1) = mset h"
    using p1 ms [of "h ! 0"] by (simp add: siftdown_loop_mset)
  ultimately show ?thesis by (simp add: eq)
qed

lemma is_heap_min: "is_heap h \<Longrightarrow> i < length h \<Longrightarrow> h ! 0 \<le> h ! i"
proof (induction i rule: less_induct)
  case (less i)
  show ?case
  proof (cases "i = 0")
    case True
    then show ?thesis by simp
  next
    case False
    then have i: "0 < i" by simp
    have pi: "parent_pos i < i" using i by (rule parent_pos_less)
    have "h ! 0 \<le> h ! parent_pos i"
      using less.IH [OF pi less.prems(1)] pi less.prems(2) by simp
    also have "\<dots> \<le> h ! i"
      using is_heapD [OF less.prems(1) i less.prems(2)] .
    finally show ?thesis .
  qed
qed

lemma heappop_heap:
  assumes "heap \<noteq> []" and "is_heap heap"
  shows "\<exists>m h'. heappop heap = Inr (m, h') \<and> is_heap h' \<and> mset heap = add_mset m (mset h') \<and>
           (\<forall>y \<in> set heap. m \<le> y)"
proof (cases "butlast heap = []")
  case True
  then have h: "heap = [last heap]"
    using assms(1) by (metis append_butlast_last_id append_Nil)
  have "heappop heap = Inr (last heap, [])"
    using assms(1) True by (simp add: heappop_def Let_def)
  moreover have "is_heap ([]::'a list)" by (simp add: is_heap_def)
  moreover have "mset heap = add_mset (last heap) (mset [])"
    by (subst h) simp
  moreover have "\<forall>y \<in> set heap. last heap \<le> y"
    by (subst h) simp
  ultimately show ?thesis by blast
next
  case False
  define b where "b = butlast heap"
  define h0 where "h0 = b[0 := last heap]"
  have heap: "heap = b @ [last heap]"
    using assms(1) by (simp add: b_def)
  have b: "b \<noteq> []" using False by (simp add: b_def)
  have pop: "heappop heap = Inr (b ! 0, siftup h0 0)"
    using assms(1) False by (simp add: heappop_def Let_def b_def h0_def)
  have "heap_hole h0 0"
    unfolding h0_def b_def using assms(2) False
    by (intro is_heap_hole_root is_heap_butlast)
  then have s: "is_heap (siftup h0 0)" "mset (siftup h0 0) = mset h0"
    using siftup_root by blast+
  have "mset h0 = add_mset (last heap) (mset b - {#b ! 0#})"
    using b by (simp add: h0_def mset_update)
  moreover have "b ! 0 \<in># mset b"
    using b by simp
  ultimately have m: "mset heap = add_mset (b ! 0) (mset (siftup h0 0))"
    by (subst heap) (simp add: s(2))
  have b0: "b ! 0 = heap ! 0"
    using b by (subst heap) (simp add: nth_append)
  have "b ! 0 \<le> y" if "y \<in> set heap" for y
  proof -
    from that obtain i where "i < length heap" "heap ! i = y"
      by (auto simp: in_set_conv_nth)
    then show ?thesis
      using is_heap_min [OF assms(2), of i] b0 by simp
  qed
  with pop s(1) m show ?thesis by blast
qed

lemma top_step_eq:
  "top_step tp n item heap =
     (if snd item = 0 then Inr heap
      else push_bounded n (dict_get tp (fst item) 0 / snd item, fst (fst item), snd (fst item)) heap)"
  by (cases item) (auto simp: top_step_def push_bounded_def truediv_nonzero Let_def)

lemma top_fold_eq:
  "fold_res (top_step tp n) items heap =
     fold_res (push_bounded n)
       (map (\<lambda>item. (dict_get tp (fst item) 0 / snd item, fst (fst item), snd (fst item)))
          (filter (\<lambda>item. snd item \<noteq> 0) items)) heap"
proof (induction items arbitrary: heap)
  case Nil
  show ?case by simp
next
  case (Cons item items)
  show ?case
  proof (cases "snd item = 0")
    case True
    then have "top_step tp n item heap = Inr heap"
      by (simp add: top_step_eq)
    then show ?thesis using True by (simp add: Cons.IH)
  next
    case False
    then have "top_step tp n item heap =
        push_bounded n (dict_get tp (fst item) 0 / snd item, fst (fst item), snd (fst item)) heap"
      by (simp add: top_step_eq)
    then show ?thesis
      using False by (simp add: bind_res_def Cons.IH split: sum.splits)
  qed
qed

lemma top_heap_eq:
  "top_heap orders n = fold_res (push_bounded n) (margin_candidates orders) []"
  by (simp add: top_heap_def margin_candidates_def top_fold_eq Let_def)

lemma push_bounded_inv:
  assumes "top_inv n heap dropped"
  shows "\<exists>heap' dropped'. push_bounded n x heap = Inr heap' \<and> top_inv n heap' dropped' \<and>
           mset heap' + dropped' = add_mset x (mset heap + dropped)"
proof -
  have heap: "is_heap heap" and len: "length heap \<le> nat n"
    and le: "\<And>d r. d \<in># dropped \<Longrightarrow> r \<in> set heap \<Longrightarrow> d \<le> r"
    and full: "dropped \<noteq> {#} \<Longrightarrow> length heap = nat n"
    using assms by (auto simp: top_inv_def)
  define h1 where "h1 = heappush heap x"
  have h1: "is_heap h1" "length h1 = Suc (length heap)" "mset h1 = add_mset x (mset heap)"
    using heap by (simp_all add: h1_def heappush_heap)
  show ?thesis
  proof (cases "int (length h1) > n")
    case False
    then have lt: "length heap < nat n" using h1(2) by simp
    then have "dropped = {#}" using full by auto
    moreover have "set h1 = insert x (set heap)"
      using h1(3) by (metis set_mset_add_mset_insert set_mset_mset)
    ultimately have "top_inv n h1 dropped"
      using h1(1,2) lt by (simp add: top_inv_def)
    moreover have "push_bounded n x heap = Inr h1"
      using False by (simp add: push_bounded_def h1_def Let_def)
    ultimately show ?thesis using h1(3) by auto
  next
    case True
    then have eq: "length heap = nat n" using len h1(2) by linarith
    have "h1 \<noteq> []" using h1(2) by auto
    from heappop_heap [OF this h1(1)] obtain m h2 where
      pop: "heappop h1 = Inr (m, h2)" and h2: "is_heap h2"
      and ms: "mset h1 = add_mset m (mset h2)" and min: "\<And>y. y \<in> set h1 \<Longrightarrow> m \<le> y"
      by blast
    have res: "push_bounded n x heap = Inr h2"
      using True pop by (simp add: push_bounded_def h1_def [symmetric] Let_def)
    have "size (mset h1) = Suc (size (mset h2))" by (simp add: ms)
    then have len2: "length h2 = length heap" using h1(2) by simp
    have sub: "set h2 \<subseteq> set h1"
      using ms by (metis set_mset_mset set_mset_add_mset_insert subset_insertI)
    have xin: "x \<in> set h1"
      using h1(3) by (metis set_mset_mset union_single_eq_member)
    have "d \<le> r" if d: "d \<in># add_mset m dropped" and r: "r \<in> set h2" for d r
    proof (cases "d \<in># dropped")
      case False
      then have "d = m" using d by auto
      then show ?thesis using min sub r by auto
    next
      case True
      show ?thesis
      proof (cases "r \<in> set heap")
        case True
        then show ?thesis using le \<open>d \<in># dropped\<close> by simp
      next
        case False
        have "r \<in># add_mset x (mset heap)"
          using r sub h1(3) by (metis set_mset_mset subsetD)
        then have rx: "r = x" using False by auto
        have "m \<noteq> x"
        proof
          assume "m = x"
          then have "mset h2 = mset heap" using ms h1(3) by simp
          then have "set h2 = set heap" by (metis set_mset_mset)
          then show False using r False by simp
        qed
        moreover have "m \<in># add_mset x (mset heap)"
          using ms h1(3) by (metis union_single_eq_member)
        ultimately have "m \<in> set heap" by auto
        then have "d \<le> m" using le True by simp
        also have "m \<le> x" using min xin by simp
        finally show ?thesis using rx by simp
      qed
    qed
    then have "top_inv n h2 (add_mset m dropped)"
      using h2 len2 eq by (simp add: top_inv_def)
    moreover have "mset h2 + add_mset m dropped = add_mset x (mset heap + dropped)"
      using ms h1(3) by (metis union_mset_add_mset_left union_mset_add_mset_right)
    ultimately show ?thesis using res by blast
  qed
qed

lemma fold_push_bounded_inv:
  assumes "top_inv n heap dropped"
  shows "\<exists>heap' dropped'. fold_res (push_bounded n) xs heap = Inr heap' \<and> top_inv n heap' dropped' \<and>
           mset heap' + dropped' = mset xs + (mset heap + dropped)"
  using assms
proof (induction xs arbitrary: heap dropped)
  case Nil
  then show ?case by auto
next
  case (Cons x xs)
  from push_bounded_inv [OF Cons.prems, of x] obtain h1 d1 where
    s: "push_bounded n x heap = Inr h1" and i: "top_inv n h1 d1"
    and m: "mset h1 + d1 = add_mset x (mset heap + dropped)"
    by blast
  from Cons.IH [OF i] obtain h2 d2 where
    f: "fold_res (push_bounded n) xs h1 = Inr h2" and i2: "top_inv n h2 d2"
    and m2: "mset h2 + d2 = mset xs + (mset h1 + d1)"
    by blast
  have "fold_res (push_bounded n) (x # xs) heap = Inr h2"
    by (simp add: s f)
  moreover have "mset h2 + d2 = mset (x # xs) + (mset heap + dropped)"
    by (simp add: m2 m)
  ultimately show ?case using i2 by blast
qed

lemma top_heap_result:
  "\<exists>heap dropped. top_heap orders n = Inr heap \<and> top_inv n heap dropped \<and>
     mset heap + dropped = mset (margin_candidates orders)"
proof -
  have "top_inv n ([]::(real \<times> string \<times> string) list) {#}"
    by (simp add: top_inv_def is_heap_def)
  from fold_push_bounded_inv [OF this, of "margin_candidates orders"]
  show ?thesis by (simp add: top_heap_eq)
qed



lemma margin_candidates_distinct: "distinct (margin_candidates orders)"
proof -
  define ts where "ts = aggregate_sum_by_key orders (\<lambda>ord. (category ord, sub_category ord)) sales"
  have d: "distinct (map fst ts)"
    by (simp add: ts_def aggregate_sum_distinct)
  then have "distinct (map fst (filter (\<lambda>item. snd item \<noteq> 0) ts))"
    by (rule distinct_map_filter)
  then have dk: "distinct (map (\<lambda>item. (fst (fst item), snd (fst item)))
                   (filter (\<lambda>item. snd item \<noteq> 0) ts))"
    by simp
  have "distinct (map (\<lambda>t. (fst (snd t), snd (snd t))) (margin_candidates orders))"
    using dk by (simp add: margin_candidates_def ts_def [symmetric] comp_def)
  then show ?thesis
    by (simp add: distinct_map)
qed

lemma sorted_reverse_set [simp]: "set (sorted_reverse f xs) = set xs"
  by (simp add: sorted_reverse_def)

lemma sorted_reverse_length [simp]: "length (sorted_reverse f xs) = length xs"
  by (simp add: sorted_reverse_def)

lemma sorted_reverse_distinct [simp]: "distinct (sorted_reverse f xs) = distinct xs"
  by (simp add: sorted_reverse_def)


text \<open>Two selections of the same size whose members exceed all other candidates coincide.\<close>

lemma top_set_unique:
  fixes R R' C :: "'a::linorder set"
  assumes fin: "finite R" "finite R'" and card: "card R = card R'"
    and sub: "R \<subseteq> C" "R' \<subseteq> C"
    and top: "\<And>e r. e \<in> C \<Longrightarrow> e \<notin> R \<Longrightarrow> r \<in> R \<Longrightarrow> e < r"
    and top': "\<And>e r. e \<in> C \<Longrightarrow> e \<notin> R' \<Longrightarrow> r \<in> R' \<Longrightarrow> e < r"
  shows "R = R'"
proof (rule ccontr)
  assume ne: "R \<noteq> R'"
  have "\<not> R \<subseteq> R'"
    using ne fin card by (metis card_subset_eq)
  then obtain x where x: "x \<in> R" "x \<notin> R'" by auto
  have "\<not> R' \<subseteq> R"
    using ne fin card by (metis card_subset_eq)
  then obtain y where y: "y \<in> R'" "y \<notin> R" by auto
  have "x < y" using top' [of x y] x y sub by auto
  moreover have "y < x" using top [of y x] x y sub by auto
  ultimately show False by simp
qed

lemma top_heap_selection:
  "\<exists>heap. top_heap orders n = Inr heap \<and> distinct heap \<and>
     set heap \<subseteq> set (margin_candidates orders) \<and>
     length heap = min (nat n) (length (margin_candidates orders)) \<and>
     (\<forall>e \<in> set (margin_candidates orders). e \<notin> set heap \<longrightarrow> (\<forall>r \<in> set heap. e < r))"
proof -
  define cands where "cands = margin_candidates orders"
  obtain heap dropped where r: "top_heap orders n = Inr heap" and inv: "top_inv n heap dropped"
    and ms: "mset heap + dropped = mset cands"
    using top_heap_result [of orders n] unfolding cands_def by blast
  obtain ds where ds: "mset ds = dropped"
    using ex_mset by blast
  have eq: "mset (heap @ ds) = mset cands"
    using ms ds by simp
  have "distinct cands"
    by (simp add: cands_def margin_candidates_distinct)
  then have d: "distinct (heap @ ds)"
    using eq by (metis mset_eq_imp_distinct_iff)
  have sets: "set cands = set heap \<union> set ds"
    using eq by (metis mset_eq_setD set_append)
  have len: "length cands = length heap + length ds"
    using eq by (metis mset_eq_length length_append)
  have le: "length heap \<le> nat n" and full: "dropped \<noteq> {#} \<Longrightarrow> length heap = nat n"
    and ord: "\<And>e r. e \<in># dropped \<Longrightarrow> r \<in> set heap \<Longrightarrow> e \<le> r"
    using inv by (auto simp: top_inv_def)
  have "length heap = min (nat n) (length cands)"
  proof (cases "ds = []")
    case True
    then show ?thesis using len le by simp
  next
    case False
    then have "dropped \<noteq> {#}" using ds by auto
    then show ?thesis using full len by simp
  qed
  moreover have "e < r" if "e \<in> set cands" "e \<notin> set heap" "r \<in> set heap" for e r
  proof -
    have "e \<in> set ds" using that(1,2) sets by auto
    then have "e \<in># dropped" using ds by auto
    then have "e \<le> r" using ord that(3) by simp
    moreover have "e \<noteq> r" using that(2,3) by auto
    ultimately show ?thesis by simp
  qed
  moreover have "distinct heap" using d by simp
  moreover have "set heap \<subseteq> set cands" using sets by simp
  ultimately show ?thesis
    using r unfolding cands_def by blast
qed

lemma top_categories_eq:
  "top_heap orders n = Inr heap \<Longrightarrow>
     top_categories_by_margin orders n =
       Inr (map (\<lambda>(margin, cat, sub). (cat, sub, margin)) (sorted_reverse fst heap))"
  by (simp add: top_categories_by_margin_def Let_def)

lemma top_member:
  "(cat, sub, m) \<in> set (map (\<lambda>(margin, cat, sub). (cat, sub, margin)) (sorted_reverse fst heap)) \<longleftrightarrow>
     (m, cat, sub) \<in> set heap"
  by force



lemma tuple_less_iff:
  fixes m m' :: real and cat cat' sub sub' :: string
  shows "(m', cat', sub') < (m, cat, sub) \<longleftrightarrow>
           m' < m \<or> (m' = m \<and> (cat' < cat \<or> (cat' = cat \<and> sub' < sub)))"
  by (simp add: less_prod_def')

lemma top_heap_unique:
  assumes "set (margin_candidates orders') = set (margin_candidates orders)"
    and "top_heap orders n = Inr heap" and "top_heap orders' n = Inr heap'"
  shows "set heap' = set heap"
proof -
  obtain h where h: "top_heap orders n = Inr h" "distinct h"
    "set h \<subseteq> set (margin_candidates orders)"
    "length h = min (nat n) (length (margin_candidates orders))"
    "\<And>e r. e \<in> set (margin_candidates orders) \<Longrightarrow> e \<notin> set h \<Longrightarrow> r \<in> set h \<Longrightarrow> e < r"
    using top_heap_selection [of orders n] by blast
  obtain h' where h': "top_heap orders' n = Inr h'" "distinct h'"
    "set h' \<subseteq> set (margin_candidates orders')"
    "length h' = min (nat n) (length (margin_candidates orders'))"
    "\<And>e r. e \<in> set (margin_candidates orders') \<Longrightarrow> e \<notin> set h' \<Longrightarrow> r \<in> set h' \<Longrightarrow> e < r"
    using top_heap_selection [of orders' n] by blast
  have eq: "h = heap" "h' = heap'"
    using h(1) h'(1) assms(2,3) by simp_all
  have "length (margin_candidates orders') = length (margin_candidates orders)"
    using assms(1) margin_candidates_distinct [of orders] margin_candidates_distinct [of orders']
    by (metis distinct_card)
  then have "card (set h') = card (set h)"
    using h(2,4) h'(2,4) by (simp add: distinct_card)
  then have "set h' = set h"
    using h(3) h'(3) h(5) h'(5) unfolding assms(1)
    by (intro top_set_unique [where C = "set (margin_candidates orders)"]) simp_all
  then show ?thesis by (simp add: eq)
qed

text \<open>
  Claim C9, as the code has it. The heap items are \<open>(margin, category, sub_category)\<close>
  tuples compared lexicographically, so for every input and every \<open>n\<close> the retained groups
  are the \<open>min n (number of candidates)\<close> greatest candidate tuples: every candidate that is
  not returned has a smaller margin than every returned group, or the same margin and a
  lexicographically smaller \<open>(category, sub_category)\<close>. The set of returned groups is
  therefore a function of the candidate set alone. (The order of the output among groups
  with exactly equal margins is not: see the counterexample.)
\<close>

theorem top_categories_by_margin_ties:
  "\<exists>top. top_categories_by_margin orders n = Inr top \<and> distinct top \<and>
     length top = min (nat n) (length (margin_candidates orders)) \<and>
     (\<forall>(cat, sub, m) \<in> set top. (m, cat, sub) \<in> set (margin_candidates orders)) \<and>
     (\<forall>(m', cat', sub') \<in> set (margin_candidates orders). (cat', sub', m') \<notin> set top \<longrightarrow>
        (\<forall>(cat, sub, m) \<in> set top.
           m' < m \<or> (m' = m \<and> (cat' < cat \<or> (cat' = cat \<and> sub' < sub))))) \<and>
     (\<forall>orders' top'. set (margin_candidates orders') = set (margin_candidates orders) \<longrightarrow>
        top_categories_by_margin orders' n = Inr top' \<longrightarrow> set top' = set top)"
proof -
  obtain heap where h: "top_heap orders n = Inr heap" and d: "distinct heap"
    and sub: "set heap \<subseteq> set (margin_candidates orders)"
    and len: "length heap = min (nat n) (length (margin_candidates orders))"
    and sel: "\<And>e r. e \<in> set (margin_candidates orders) \<Longrightarrow> e \<notin> set heap \<Longrightarrow> r \<in> set heap \<Longrightarrow> e < r"
    using top_heap_selection [of orders n] by blast
  define swap :: "real \<times> string \<times> string \<Rightarrow> string \<times> string \<times> real"
    where "swap = (\<lambda>(margin, cat, sub). (cat, sub, margin))"
  define top where "top = map swap (sorted_reverse fst heap)"
  have inj: "inj swap"
    by (auto simp: inj_on_def swap_def)
  have mem: "(cat, sub, m) \<in> set top \<longleftrightarrow> (m, cat, sub) \<in> set heap" for cat sub m
    unfolding top_def swap_def by (rule top_member)
  have r: "top_categories_by_margin orders n = Inr top"
    unfolding top_def swap_def using h by (rule top_categories_eq)
  have dt: "distinct top"
    using d inj_on_subset [OF inj subset_UNIV] by (simp add: top_def distinct_map)
  have l: "length top = min (nat n) (length (margin_candidates orders))"
    using len by (simp add: top_def)
  have c: "\<forall>(cat, sub, m) \<in> set top. (m, cat, sub) \<in> set (margin_candidates orders)"
  proof
    fix t assume "t \<in> set top"
    moreover obtain cat sub m where t: "t = (cat, sub, m)" by (cases t)
    ultimately have "(m, cat, sub) \<in> set (margin_candidates orders)"
      using mem sub by blast
    then show "case t of (cat, sub, m) \<Rightarrow> (m, cat, sub) \<in> set (margin_candidates orders)"
      by (simp add: t)
  qed
  have x: "\<forall>(m', cat', sub') \<in> set (margin_candidates orders). (cat', sub', m') \<notin> set top \<longrightarrow>
        (\<forall>(cat, sub, m) \<in> set top.
           m' < m \<or> (m' = m \<and> (cat' < cat \<or> (cat' = cat \<and> sub' < sub))))"
  proof
    fix e assume e: "e \<in> set (margin_candidates orders)"
    obtain m' cat' sub' where e': "e = (m', cat', sub')" by (cases e)
    have "\<forall>(cat, sub, m) \<in> set top.
           m' < m \<or> (m' = m \<and> (cat' < cat \<or> (cat' = cat \<and> sub' < sub)))"
      if out: "(cat', sub', m') \<notin> set top"
    proof
      fix t assume t: "t \<in> set top"
      obtain cat sub m where t': "t = (cat, sub, m)" by (cases t)
      have "(m', cat', sub') < (m, cat, sub)"
        using e out t mem sel [of "(m', cat', sub')" "(m, cat, sub)"] by (simp add: e' t')
      then have "m' < m \<or> (m' = m \<and> (cat' < cat \<or> (cat' = cat \<and> sub' < sub)))"
        by (simp only: tuple_less_iff)
      then show "case t of (cat, sub, m) \<Rightarrow>
           m' < m \<or> (m' = m \<and> (cat' < cat \<or> (cat' = cat \<and> sub' < sub)))"
        by (simp add: t')
    qed
    then show "case e of (m', cat', sub') \<Rightarrow> (cat', sub', m') \<notin> set top \<longrightarrow>
        (\<forall>(cat, sub, m) \<in> set top.
           m' < m \<or> (m' = m \<and> (cat' < cat \<or> (cat' = cat \<and> sub' < sub))))"
      by (simp add: e')
  qed
  have u: "\<forall>orders' top'. set (margin_candidates orders') = set (margin_candidates orders) \<longrightarrow>
        top_categories_by_margin orders' n = Inr top' \<longrightarrow> set top' = set top"
  proof (intro allI impI)
    fix orders' top'
    assume same: "set (margin_candidates orders') = set (margin_candidates orders)"
      and r': "top_categories_by_margin orders' n = Inr top'"
    obtain heap' where h': "top_heap orders' n = Inr heap'"
      using top_heap_selection [of orders' n] by blast
    have "top' = map swap (sorted_reverse fst heap')"
      using r' top_categories_eq [OF h'] by (simp add: swap_def)
    moreover have "set heap' = set heap"
      using same h h' by (rule top_heap_unique)
    ultimately show "set top' = set top"
      by (simp add: top_def)
  qed
  from r dt l c x u show ?thesis
    by (intro exI [of _ top] conjI)
qed


lemma tie_candidates_abc:
  "margin_candidates tie_orders_abc = [(1, ''F'', ''a''), (1, ''F'', ''b''), (1, ''F'', ''c'')]"
  by code_simp

lemma tie_candidates_acb:
  "margin_candidates tie_orders_acb = [(1, ''F'', ''a''), (1, ''F'', ''c''), (1, ''F'', ''b'')]"
  by code_simp

lemma tie_top_abc_3:
  "top_categories_by_margin tie_orders_abc 3 = Inr [(''F'', ''a'', 1), (''F'', ''b'', 1), (''F'', ''c'', 1)]"
  by code_simp

lemma tie_top_acb_3:
  "top_categories_by_margin tie_orders_acb 3 = Inr [(''F'', ''a'', 1), (''F'', ''c'', 1), (''F'', ''b'', 1)]"
  by code_simp

lemma tie_top_acb_2:
  "top_categories_by_margin tie_orders_acb 2 = Inr [(''F'', ''b'', 1), (''F'', ''c'', 1)]"
  by code_simp

lemma tie_top_abc_2:
  "top_categories_by_margin tie_orders_abc 2 = Inr [(''F'', ''b'', 1), (''F'', ''c'', 1)]"
  by code_simp

text \<open>
  Claim C9 as stated fails for the output sequence: with three groups of equal margin and
  \<open>n = 3\<close>, two inputs with the same candidate multiset give the groups in different
  orders, because the final sort is stable on the margin alone and keeps the layout of the
  heap list, which depends on the order in which the groups first occur.
\<close>

theorem top_categories_tie_order_counterexample:
  "mset (margin_candidates tie_orders_abc) = mset (margin_candidates tie_orders_acb) \<and>
   top_categories_by_margin tie_orders_abc 3 =
     Inr [(''F'', ''a'', 1), (''F'', ''b'', 1), (''F'', ''c'', 1)] \<and>
   top_categories_by_margin tie_orders_acb 3 =
     Inr [(''F'', ''a'', 1), (''F'', ''c'', 1), (''F'', ''b'', 1)] \<and>
   top_categories_by_margin tie_orders_abc 3 \<noteq> top_categories_by_margin tie_orders_acb 3"
  by (simp add: tie_candidates_abc tie_candidates_acb tie_top_abc_3 tie_top_acb_3)



theorem top_categories_by_margin_ties_witness:
  "\<exists>top. top_categories_by_margin tie_orders_acb 2 = Inr top \<and>
     top = [(''F'', ''b'', 1), (''F'', ''c'', 1)] \<and>
     (1, ''F'', ''a'') \<in> set (margin_candidates tie_orders_acb) \<and>
     (''F'', ''a'', 1) \<notin> set top \<and>
     ((1::real) < 1 \<or> ((1::real) = 1 \<and> (''F'' < ''F'' \<or> (''F'' = ''F'' \<and> ''a'' < ''b'')))) \<and>
     set (margin_candidates tie_orders_abc) = set (margin_candidates tie_orders_acb) \<and>
     top_categories_by_margin tie_orders_abc 2 = Inr [(''F'', ''b'', 1), (''F'', ''c'', 1)] \<and>
     set [(''F'', ''b'', 1), (''F'', ''c'', 1::real)] = set top"
proof -
  from top_categories_by_margin_ties [of tie_orders_acb 2]
  obtain top where top: "top_categories_by_margin tie_orders_acb 2 = Inr top \<and> distinct top \<and>
     length top = min (nat 2) (length (margin_candidates tie_orders_acb)) \<and>
     (\<forall>(cat, sub, m) \<in> set top. (m, cat, sub) \<in> set (margin_candidates tie_orders_acb)) \<and>
     (\<forall>(m', cat', sub') \<in> set (margin_candidates tie_orders_acb). (cat', sub', m') \<notin> set top \<longrightarrow>
        (\<forall>(cat, sub, m) \<in> set top.
           m' < m \<or> (m' = m \<and> (cat' < cat \<or> (cat' = cat \<and> sub' < sub))))) \<and>
     (\<forall>orders' top'. set (margin_candidates orders') = set (margin_candidates tie_orders_acb) \<longrightarrow>
        top_categories_by_margin orders' 2 = Inr top' \<longrightarrow> set top' = set top)" ..
  note r = top [THEN conjunct1]
  note x = top [THEN conjunct2, THEN conjunct2, THEN conjunct2, THEN conjunct2, THEN conjunct1]
  note u = top [THEN conjunct2, THEN conjunct2, THEN conjunct2, THEN conjunct2, THEN conjunct2,
      rule_format]
  have eq: "top = [(''F'', ''b'', 1), (''F'', ''c'', 1)]"
    using r by (simp add: tie_top_acb_2)
  have c: "(1, ''F'', ''a'') \<in> set (margin_candidates tie_orders_acb)"
    by (simp add: tie_candidates_acb)
  have out: "(''F'', ''a'', 1) \<notin> set top"
    by (simp add: eq)
  have inn: "(''F'', ''b'', 1) \<in> set top"
    by (simp add: eq)
  from x c out inn
  have lt: "(1::real) < 1 \<or> ((1::real) = 1 \<and> (''F'' < ''F'' \<or> (''F'' = ''F'' \<and> ''a'' < ''b'')))"
    by fastforce
  have same: "set (margin_candidates tie_orders_abc) = set (margin_candidates tie_orders_acb)"
    by (auto simp: tie_candidates_abc tie_candidates_acb)
  note s = u [OF same tie_top_abc_2]
  from r eq c out lt same tie_top_abc_2 s show ?thesis
    by (intro exI [of _ top] conjI)
qed

subsection \<open>Totality of the composite queries\<close>









end
